theory Spec2Isabelle
  imports Main "HOL-Library.Word"
begin

unbundle bit_operations_syntax

section \<open>Data model of osmem.c\<close>

type_synonym addr = "64 word"
type_synonym size_t = "64 word"

text \<open>Modelled from the spec: block_meta.h is not among the sources. The spec gives the
  header as the record {size, status, next, prev} with status one of FREE, ALLOC, MAPPED;
  on an LP64 target (8-byte size_t and pointers, 4-byte int padded to 8) the structure
  occupies 32 bytes.\<close>

datatype status = STATUS_FREE | STATUS_ALLOC | STATUS_MAPPED

record block_meta =
  size_m :: size_t
  status_m :: status
  prev_m :: addr
  next_m :: addr

definition sizeof_block_meta :: size_t where
  "sizeof_block_meta = 32"

definition MMAP_THRESHOLD :: size_t where
  "MMAP_THRESHOLD = 128 * 1024"

definition ALIGNMENT :: size_t where
  "ALIGNMENT = 8"

definition ALIGN :: "size_t \<Rightarrow> size_t" where
  "ALIGN sz = (sz + (ALIGNMENT - 1)) AND NOT (ALIGNMENT - 1)"

text \<open>The kernel calls the allocator issues, in the order it issues them.\<close>

datatype syscall = SBRK size_t | MMAP size_t | MUNMAP addr size_t

text \<open>Ways in which a call does not return. \<open>Fatal\<close>: the DIE macro (declared outside
  osmem.c; the spec has it print a diagnostic and end the process) after a failed kernel
  call. \<open>Fault\<close>: a read or write through NULL or through a pointer that addresses no
  block header, which is undefined behaviour in C.\<close>

datatype error = Fatal | Fault

text \<open>The process: the block headers in memory (one record per header address), the
  payload bytes, the allocator's four globals, and the kernel's side (program break, its
  limit, the next free mapping address, the page size, the system-call trace). Headers
  and payload bytes are kept in two stores: memset and memcpy change payload bytes only,
  and a header is read back as it was last written. The header store describes the C
  memory as long as no header starts inside the 32 bytes of another: there the two
  structures would share bytes in C, and a write to one would alter the other. The
  allocator writes such a header, for instance, in the split of searchAndSplit when the
  requested total lies between 1 and 31, which a caller reaches only after its size
  computation has wrapped around; the store then holds two records where the C
  structures overlap.\<close>

record process =
  mem :: "addr \<Rightarrow> block_meta option"
  bytes :: "addr \<Rightarrow> 8 word"
  head :: addr
  preallocHeap :: int
  callocType :: int
  reallocType :: int
  brk :: addr
  brk_max :: addr
  map_next :: addr
  pagesize :: size_t
  trace :: "syscall list"

text \<open>A result is \<open>None\<close> when a loop never ends, \<open>Some (Inl e)\<close> when the call
  stops with error \<open>e\<close>, and \<open>Some (Inr v)\<close> when it returns \<open>v\<close>.\<close>

type_synonym 'a result = "(error + 'a) option"

definition returns :: "'a \<Rightarrow> 'a result" where
  "returns x = Some (Inr x)"

definition raise :: "error \<Rightarrow> 'a result" where
  "raise e = Some (Inl e)"

definition then_do :: "'a result \<Rightarrow> ('a \<Rightarrow> 'b result) \<Rightarrow> 'b result" where
  "then_do m f = (case m of None \<Rightarrow> None | Some (Inl e) \<Rightarrow> Some (Inl e) | Some (Inr x) \<Rightarrow> f x)"

text \<open>Reading a header through a pointer, and writing one field of an existing header.\<close>

definition load :: "process \<Rightarrow> addr \<Rightarrow> block_meta result" where
  "load s p = (if p = 0 then raise Fault
               else case mem s p of None \<Rightarrow> raise Fault | Some b \<Rightarrow> returns b)"

definition store :: "addr \<Rightarrow> (block_meta \<Rightarrow> block_meta) \<Rightarrow> process \<Rightarrow> process result" where
  "store p f s = then_do (load s p) (\<lambda>b. returns (s\<lparr>mem := (mem s)(p \<mapsto> f b)\<rparr>))"

text \<open>The cast of a raw address to \<open>struct block_meta *\<close>: the memory there is from now
  on read as a header. Its four fields hold whatever the memory held; every caller
  assigns all four.\<close>

definition blank :: block_meta where
  "blank = \<lparr>size_m = 0, status_m = STATUS_FREE, prev_m = 0, next_m = 0\<rparr>"

definition as_block :: "addr \<Rightarrow> process \<Rightarrow> process" where
  "as_block p s = (case mem s p of None \<Rightarrow> s\<lparr>mem := (mem s)(p \<mapsto> blank)\<rparr> | Some b \<Rightarrow> s)"

section \<open>Kernel primitives\<close>

text \<open>sbrk moves the program break by a signed increment and returns the old break, or
  \<open>-1\<close> when the new break would leave the range the kernel grants.\<close>

definition sbrk :: "size_t \<Rightarrow> process \<Rightarrow> addr \<times> process" where
  "sbrk n s =
     (let new = uint (brk s) + sint n;
          s' = s\<lparr>trace := trace s @ [SBRK n]\<rparr>
      in if new < 0 \<or> uint (brk_max s) < new then (- 1, s')
         else (brk s, s'\<lparr>brk := word_of_int new\<rparr>))"

text \<open>mmap hands out the next free mapping address and advances it by the length rounded
  up to whole pages; it fails (\<open>MAP_FAILED = -1\<close>) on length 0 or when the address space
  is exhausted.\<close>

definition mmap :: "size_t \<Rightarrow> process \<Rightarrow> addr \<times> process" where
  "mmap len s =
     (let pg = pagesize s;
          n = ((len + (pg - 1)) div pg) * pg;
          s' = s\<lparr>trace := trace s @ [MMAP len]\<rparr>
      in if len = 0 \<or> n < len \<or> map_next s + n < map_next s then (- 1, s')
         else (map_next s, s'\<lparr>map_next := map_next s + n\<rparr>))"

text \<open>munmap releases the bytes \<open>[p, p + len)\<close>: headers there are no longer readable.
  It fails (\<open>-1\<close>) on length 0.\<close>

definition munmap :: "addr \<Rightarrow> size_t \<Rightarrow> process \<Rightarrow> int \<times> process" where
  "munmap p len s =
     (let s' = s\<lparr>trace := trace s @ [MUNMAP p len]\<rparr>
      in if len = 0 then (- 1, s')
         else (0, s'\<lparr>mem := (\<lambda>a. if a - p < len then None else mem s a)\<rparr>))"

definition memset :: "addr \<Rightarrow> 8 word \<Rightarrow> size_t \<Rightarrow> process \<Rightarrow> process" where
  "memset p c n s = s\<lparr>bytes := (\<lambda>a. if a - p < n then c else bytes s a)\<rparr>"

definition memcpy :: "addr \<Rightarrow> addr \<Rightarrow> size_t \<Rightarrow> process \<Rightarrow> process" where
  "memcpy dst src n s = s\<lparr>bytes := (\<lambda>a. if a - dst < n then bytes s (src + (a - dst)) else bytes s a)\<rparr>"

section \<open>Registry\<close>

text \<open>The loop \<open>while (temp->next != NULL) temp = temp->next;\<close> of insertInList and
  extendHeap.\<close>

partial_function (option) walk_to_last :: "process \<Rightarrow> addr \<Rightarrow> addr result" where
  "walk_to_last s temp =
     (case load s temp of
        None \<Rightarrow> None
      | Some (Inl e) \<Rightarrow> Some (Inl e)
      | Some (Inr b) \<Rightarrow> if next_m b \<noteq> 0 then walk_to_last s (next_m b) else Some (Inr temp))"

declare walk_to_last.simps [code]

definition insertInList :: "addr \<Rightarrow> process \<Rightarrow> process result" where
  "insertInList memBlock s =
     (if head s = 0 then
        then_do (store memBlock (\<lambda>b. b\<lparr>prev_m := 0\<rparr>) (s\<lparr>head := memBlock\<rparr>)) (\<lambda>s1.
        store memBlock (\<lambda>b. b\<lparr>next_m := 0\<rparr>) s1)
      else
        then_do (walk_to_last s (head s)) (\<lambda>temp.
        then_do (store temp (\<lambda>b. b\<lparr>next_m := memBlock\<rparr>) s) (\<lambda>s1.
        store memBlock (\<lambda>b. b\<lparr>prev_m := temp\<rparr>) s1)))"

definition deleteBlock :: "addr \<Rightarrow> process \<Rightarrow> process result" where
  "deleteBlock delBlock s =
     (if head s = 0 \<or> delBlock = 0 then returns s
      else
        then_do (if head s = delBlock
                 then then_do (load s delBlock) (\<lambda>d. returns (s\<lparr>head := next_m d\<rparr>))
                 else returns s) (\<lambda>s1.
        then_do (load s1 delBlock) (\<lambda>d.
        then_do (if next_m d \<noteq> 0
                 then store (next_m d) (\<lambda>b. b\<lparr>prev_m := prev_m d\<rparr>) s1
                 else returns s1) (\<lambda>s2.
        then_do (load s2 delBlock) (\<lambda>d2.
        if prev_m d2 \<noteq> 0
        then store (prev_m d2) (\<lambda>b. b\<lparr>next_m := next_m d2\<rparr>) s2
        else returns s2)))))"

section \<open>Arena and mapping allocation\<close>

definition allocateMmap :: "size_t \<Rightarrow> process \<Rightarrow> (addr \<times> process) result" where
  "allocateMmap sz s =
     (case mmap sz s of (ptr, s1) \<Rightarrow>
        if ptr = - 1 then raise Fatal
        else
          then_do (store ptr (\<lambda>b. b\<lparr>next_m := 0\<rparr>) (as_block ptr s1)) (\<lambda>s2.
          then_do (store ptr (\<lambda>b. b\<lparr>prev_m := 0\<rparr>) s2) (\<lambda>s3.
          then_do (store ptr (\<lambda>b. b\<lparr>size_m := sz\<rparr>) s3) (\<lambda>s4.
          then_do (store ptr (\<lambda>b. b\<lparr>status_m := STATUS_MAPPED\<rparr>) s4) (\<lambda>s5.
          then_do (insertInList ptr s5) (\<lambda>s6.
          returns (ptr, s6)))))))"

definition allocateSbrk :: "size_t \<Rightarrow> process \<Rightarrow> (addr \<times> process) result" where
  "allocateSbrk sz s =
     (case sbrk sz s of (ptr, s1) \<Rightarrow>
        if ptr = - 1 then raise Fatal
        else
          then_do (store ptr (\<lambda>b. b\<lparr>next_m := 0\<rparr>) (as_block ptr s1)) (\<lambda>s2.
          then_do (store ptr (\<lambda>b. b\<lparr>prev_m := 0\<rparr>) s2) (\<lambda>s3.
          then_do (store ptr (\<lambda>b. b\<lparr>size_m := sz - ALIGN sizeof_block_meta\<rparr>) s3) (\<lambda>s4.
          then_do (store ptr (\<lambda>b. b\<lparr>status_m := STATUS_ALLOC\<rparr>) s4) (\<lambda>s5.
          then_do (insertInList ptr s5) (\<lambda>s6.
          returns (ptr, s6)))))))"

section \<open>Coalescing, best fit, splitting, extending\<close>

text \<open>The sweep of mergeFreeBlocks when it is not a realloc:
  \<open>while (tmp->next != NULL && tmp != NULL)\<close>.\<close>

partial_function (option) merge_sweep :: "addr \<Rightarrow> process \<Rightarrow> process result" where
  "merge_sweep tmp s =
     (case load s tmp of
        None \<Rightarrow> None
      | Some (Inl e) \<Rightarrow> Some (Inl e)
      | Some (Inr b) \<Rightarrow>
          if next_m b \<noteq> 0 \<and> tmp \<noteq> 0 then
            if status_m b = STATUS_FREE then
              (case load s (next_m b) of
                 None \<Rightarrow> None
               | Some (Inl e) \<Rightarrow> Some (Inl e)
               | Some (Inr nb) \<Rightarrow>
                   if status_m nb = STATUS_FREE then
                     merge_sweep tmp
                       (s\<lparr>mem := (mem s)(tmp \<mapsto>
                            b\<lparr>size_m := size_m b + (size_m nb + ALIGN sizeof_block_meta),
                              next_m := next_m nb\<rparr>)\<rparr>)
                   else merge_sweep (next_m b) s)
            else merge_sweep (next_m b) s
          else Some (Inr s))"

declare merge_sweep.simps [code]

definition mergeFreeBlocks :: "addr \<Rightarrow> int \<Rightarrow> process \<Rightarrow> process result" where
  "mergeFreeBlocks headp reallocTy s =
     (if headp = 0 then returns s
      else
        then_do
          (if reallocTy = 1 then
             then_do (load s headp) (\<lambda>b.
             if next_m b \<noteq> 0 then
               then_do (load s (next_m b)) (\<lambda>nb.
               if status_m nb = STATUS_FREE then
                 then_do (store headp (\<lambda>t. t\<lparr>size_m := size_m t + (size_m nb + ALIGN sizeof_block_meta)\<rparr>) s) (\<lambda>s1.
                 then_do (load s1 headp) (\<lambda>b1.
                 then_do (load s1 (next_m b1)) (\<lambda>nb1.
                 store headp (\<lambda>t. t\<lparr>next_m := next_m nb1\<rparr>) s1)))
               else returns s)
             else returns s)
           else returns s) (\<lambda>s2.
        if reallocTy = 0 then merge_sweep headp s2 else returns s2))"

text \<open>The search loop of searchAndSplit: one walk, keeping the first block of the
  smallest size among the free blocks that are large enough.\<close>

partial_function (option) best_fit :: "process \<Rightarrow> size_t \<Rightarrow> addr \<Rightarrow> addr \<Rightarrow> addr result" where
  "best_fit s requiredSize tmp bestFit =
     (if tmp \<noteq> 0 then
        (case load s tmp of
           None \<Rightarrow> None
         | Some (Inl e) \<Rightarrow> Some (Inl e)
         | Some (Inr b) \<Rightarrow>
             if requiredSize \<le> size_m b \<and> status_m b = STATUS_FREE then
               (if bestFit = 0 then best_fit s requiredSize (next_m b) tmp
                else
                  (case load s bestFit of
                     None \<Rightarrow> None
                   | Some (Inl e) \<Rightarrow> Some (Inl e)
                   | Some (Inr bb) \<Rightarrow>
                       if size_m b < size_m bb then best_fit s requiredSize (next_m b) tmp
                       else best_fit s requiredSize (next_m b) bestFit))
             else best_fit s requiredSize (next_m b) bestFit)
      else Some (Inr bestFit))"

declare best_fit.simps [code]

definition searchAndSplit :: "addr \<Rightarrow> size_t \<Rightarrow> process \<Rightarrow> (addr \<times> process) result" where
  "searchAndSplit headp sz s =
     (let requiredSize = sz - ALIGN sizeof_block_meta in
      then_do (best_fit s requiredSize headp 0) (\<lambda>bestFit.
      if bestFit \<noteq> 0 then
        then_do (store bestFit (\<lambda>b. b\<lparr>status_m := STATUS_ALLOC\<rparr>) s) (\<lambda>s1.
        then_do (load s1 bestFit) (\<lambda>b1.
        if ALIGN 1 + sz \<le> size_m b1 then
          (let newBlock = bestFit + sz in
           then_do (store newBlock (\<lambda>n. n\<lparr>size_m := size_m b1 - sz\<rparr>) (as_block newBlock s1)) (\<lambda>s2.
           then_do (store newBlock (\<lambda>n. n\<lparr>status_m := STATUS_FREE\<rparr>) s2) (\<lambda>s3.
           then_do (store bestFit (\<lambda>b. b\<lparr>size_m := requiredSize\<rparr>) s3) (\<lambda>s4.
           then_do (load s4 bestFit) (\<lambda>b4.
           then_do (store newBlock (\<lambda>n. n\<lparr>next_m := next_m b4\<rparr>) s4) (\<lambda>s5.
           then_do (store bestFit (\<lambda>b. b\<lparr>next_m := newBlock\<rparr>) s5) (\<lambda>s6.
           then_do (store newBlock (\<lambda>n. n\<lparr>prev_m := bestFit\<rparr>) s6) (\<lambda>s7.
           returns (bestFit, s7)))))))))
        else returns (bestFit, s1)))
      else returns (bestFit, s)))"

definition extendHeap :: "addr \<Rightarrow> size_t \<Rightarrow> int \<Rightarrow> process \<Rightarrow> (addr \<times> process) result" where
  "extendHeap headp sz reallocTy s =
     (let normal = (\<lambda>u::unit.
            then_do (walk_to_last s headp) (\<lambda>tmp.
            then_do (load s tmp) (\<lambda>t.
            if status_m t = STATUS_FREE then
              (case sbrk (sz - ALIGN sizeof_block_meta - size_m t) s of (ptr, s1) \<Rightarrow>
                 if ptr = - 1 then raise Fatal
                 else
                   then_do (store tmp (\<lambda>b. b\<lparr>size_m := sz - ALIGN sizeof_block_meta\<rparr>) s1) (\<lambda>s2.
                   then_do (store tmp (\<lambda>b. b\<lparr>status_m := STATUS_ALLOC\<rparr>) s2) (\<lambda>s3.
                   then_do (store tmp (\<lambda>b. b\<lparr>next_m := 0\<rparr>) s3) (\<lambda>s4.
                   returns (tmp, s4)))))
            else returns (0, s))))
      in
      if reallocTy = 1 then
        then_do (load s headp) (\<lambda>t.
        if next_m t = 0 then
          (case sbrk (sz - size_m t) s of (newAddr, s1) \<Rightarrow>
             if newAddr = - 1 then raise Fatal
             else
               then_do (store headp (\<lambda>b. b\<lparr>size_m := sz\<rparr>) s1) (\<lambda>s2.
               then_do (store headp (\<lambda>b. b\<lparr>status_m := STATUS_ALLOC\<rparr>) s2) (\<lambda>s3.
               then_do (store headp (\<lambda>b. b\<lparr>next_m := 0\<rparr>) s3) (\<lambda>s4.
               returns (headp, s4)))))
        else normal ())
      else normal ())"

definition tryAll :: "addr \<Rightarrow> size_t \<Rightarrow> process \<Rightarrow> (addr \<times> process) result" where
  "tryAll headp sz s =
     then_do (mergeFreeBlocks headp 0 s) (\<lambda>s1.
     then_do (searchAndSplit headp sz s1) (\<lambda>(memBlock, s2).
     if memBlock \<noteq> 0 then returns (memBlock, s2)
     else extendHeap headp sz 0 s2))"

definition splitRealloc :: "addr \<Rightarrow> size_t \<Rightarrow> process \<Rightarrow> (addr \<times> process) result" where
  "splitRealloc memBlock sz s =
     then_do (load s memBlock) (\<lambda>b.
     if ALIGN 1 + (sz + ALIGN sizeof_block_meta) \<le> size_m b then
       (let newBlock = memBlock + sz + ALIGN sizeof_block_meta in
        then_do (store newBlock (\<lambda>n. n\<lparr>size_m := size_m b - (sz + ALIGN sizeof_block_meta)\<rparr>)
                   (as_block newBlock s)) (\<lambda>s1.
        then_do (store newBlock (\<lambda>n. n\<lparr>status_m := STATUS_FREE\<rparr>) s1) (\<lambda>s2.
        then_do (load s2 memBlock) (\<lambda>b2.
        then_do (store newBlock (\<lambda>n. n\<lparr>next_m := next_m b2\<rparr>) s2) (\<lambda>s3.
        then_do (store memBlock (\<lambda>m. m\<lparr>next_m := newBlock\<rparr>) s3) (\<lambda>s4.
        then_do (store newBlock (\<lambda>n. n\<lparr>prev_m := memBlock\<rparr>) s4) (\<lambda>s5.
        then_do (store memBlock (\<lambda>m. m\<lparr>size_m := sz\<rparr>) s5) (\<lambda>s6.
        returns (memBlock, s6)))))))))
     else returns (memBlock, s))"

text \<open>The loop \<open>while (tmp != NULL && tmp != memBlock) tmp = tmp->next;\<close> of
  extendRealloc.\<close>

partial_function (option) find_block :: "process \<Rightarrow> addr \<Rightarrow> addr \<Rightarrow> addr result" where
  "find_block s memBlock tmp =
     (if tmp \<noteq> 0 \<and> tmp \<noteq> memBlock then
        (case load s tmp of
           None \<Rightarrow> None
         | Some (Inl e) \<Rightarrow> Some (Inl e)
         | Some (Inr b) \<Rightarrow> find_block s memBlock (next_m b))
      else Some (Inr tmp))"

declare find_block.simps [code]

definition extendRealloc :: "addr \<Rightarrow> addr \<Rightarrow> size_t \<Rightarrow> process \<Rightarrow> (addr \<times> process) result" where
  "extendRealloc headp memBlock sz s =
     then_do (find_block s memBlock headp) (\<lambda>tmp.
     if tmp \<noteq> 0 then
       (let s1 = s\<lparr>reallocType := 1\<rparr> in
        then_do (mergeFreeBlocks tmp (reallocType s1) s1) (\<lambda>s2.
        then_do (load s2 tmp) (\<lambda>t.
        if sz \<le> size_m t then splitRealloc tmp sz (s2\<lparr>reallocType := 0\<rparr>)
        else returns (0, s2\<lparr>reallocType := 0\<rparr>))))
     else returns (0, s))"

section \<open>Public interface\<close>

definition os_malloc :: "size_t \<Rightarrow> process \<Rightarrow> (addr \<times> process) result" where
  "os_malloc sz s =
     (let payloadAndMeta = ALIGN sz + ALIGN sizeof_block_meta;
          arena = (\<lambda>u::unit.
            if preallocHeap s = 0 then allocateSbrk MMAP_THRESHOLD (s\<lparr>preallocHeap := 1\<rparr>)
            else
              then_do (tryAll (head s) payloadAndMeta s) (\<lambda>(memBlock, s1).
              if memBlock = 0 then allocateSbrk payloadAndMeta s1
              else returns (memBlock, s1)))
      in
      if sz \<le> 0 then returns (0, s)
      else if callocType s = 1 then
        then_do (if pagesize s \<le> payloadAndMeta then allocateMmap payloadAndMeta s
                 else arena ()) (\<lambda>(memBlock, s1).
        returns (memBlock + sizeof_block_meta, s1))
      else
        then_do (if MMAP_THRESHOLD \<le> payloadAndMeta then allocateMmap payloadAndMeta s
                 else arena ()) (\<lambda>(memBlock, s1).
        returns (memBlock + sizeof_block_meta, s1)))"

definition os_free :: "addr \<Rightarrow> process \<Rightarrow> process result" where
  "os_free ptr s =
     (let memBlock = ptr - sizeof_block_meta in
      if ptr = 0 then returns s
      else
        then_do (load s memBlock) (\<lambda>b.
        then_do (if status_m b = STATUS_ALLOC
                 then store memBlock (\<lambda>m. m\<lparr>status_m := STATUS_FREE\<rparr>) s
                 else returns s) (\<lambda>s1.
        then_do (load s1 memBlock) (\<lambda>b1.
        if status_m b1 = STATUS_MAPPED then
          then_do (store memBlock (\<lambda>m. m\<lparr>status_m := STATUS_FREE\<rparr>) s1) (\<lambda>s2.
          then_do (deleteBlock memBlock s2) (\<lambda>s3.
          then_do (load s3 memBlock) (\<lambda>b3.
          case munmap memBlock (size_m b3) s3 of (retc, s4) \<Rightarrow>
            if retc = - 1 then raise Fatal else returns s4)))
        else returns s1))))"

definition os_calloc :: "size_t \<Rightarrow> size_t \<Rightarrow> process \<Rightarrow> (addr \<times> process) result" where
  "os_calloc nmemb sz s =
     (if nmemb = 0 \<or> sz = 0 then returns (0, s)
      else
        (let callocSize = ALIGN (nmemb * sz) in
         then_do (os_malloc callocSize (s\<lparr>callocType := 1\<rparr>)) (\<lambda>(memBlock, s1).
         if memBlock \<noteq> 0 then
           returns (memBlock, (memset memBlock 0 callocSize s1)\<lparr>callocType := 0\<rparr>)
         else returns (0, s1\<lparr>callocType := 0\<rparr>))))"

definition os_realloc :: "addr \<Rightarrow> size_t \<Rightarrow> process \<Rightarrow> (addr \<times> process) result" where
  "os_realloc ptr sz s =
     (let alignedNewPayload = ALIGN sz;
          memBlock = ptr - sizeof_block_meta
      in
      if sz = 0 then then_do (os_free ptr s) (\<lambda>s1. returns (0, s1))
      else if ptr = 0 then os_malloc sz s
      else
        then_do (load s memBlock) (\<lambda>b.
        if status_m b = STATUS_FREE then returns (0, s)
        else if alignedNewPayload = size_m b then returns (ptr, s)
        else if status_m b = STATUS_MAPPED then
          then_do (os_malloc sz s) (\<lambda>(newAddr, s1).
          then_do (load s1 memBlock) (\<lambda>b1.
          then_do (os_free ptr
                     (if alignedNewPayload < size_m b1 then memcpy newAddr ptr alignedNewPayload s1
                      else memcpy newAddr ptr (size_m b1) s1)) (\<lambda>s2.
          returns (newAddr, s2))))
        else if status_m b = STATUS_ALLOC then
          (if alignedNewPayload < size_m b then
             then_do (splitRealloc memBlock alignedNewPayload s) (\<lambda>(bestFit, s1).
             returns (bestFit + sizeof_block_meta, s1))
           else if size_m b < alignedNewPayload then
             then_do (if next_m b \<noteq> 0 then extendRealloc (head s) memBlock alignedNewPayload s
                      else (let s0 = s\<lparr>reallocType := 1\<rparr>
                            in extendHeap memBlock alignedNewPayload (reallocType s0) s0)) (\<lambda>(bestFit, s1).
             if bestFit \<noteq> 0 then returns (bestFit + sizeof_block_meta, s1)
             else
               (let s2 = s1\<lparr>reallocType := 0\<rparr> in
                then_do (os_malloc sz s2) (\<lambda>(newAddr, s3).
                then_do (load s3 memBlock) (\<lambda>b3.
                then_do (os_free ptr (memcpy newAddr ptr (size_m b3) s3)) (\<lambda>s4.
                returns (newAddr, s4))))))
           else returns (0, s))
        else returns (0, s)))"

section \<open>Registry as a list, and the states the claims speak of\<close>

text \<open>\<open>path m p as q\<close>: following \<open>next\<close> from \<open>p\<close> visits exactly the headers
  \<open>as\<close> and then reaches \<open>q\<close>; a \<open>chain\<close> is a path that ends in NULL, which is
  what the loops of the allocator walk.\<close>

fun path :: "(addr \<Rightarrow> block_meta option) \<Rightarrow> addr \<Rightarrow> addr list \<Rightarrow> addr \<Rightarrow> bool" where
  "path m p [] q = (p = q)"
| "path m p (a # as) q =
     (p = a \<and> a \<noteq> 0 \<and> (case m a of None \<Rightarrow> False | Some b \<Rightarrow> path m (next_m b) as q))"

definition chain :: "(addr \<Rightarrow> block_meta option) \<Rightarrow> addr \<Rightarrow> addr list \<Rightarrow> bool" where
  "chain m p as = path m p as 0"

text \<open>\<open>prev_ok m p as\<close>: every header of \<open>as\<close> has its predecessor in \<open>as\<close> as
  \<open>prev\<close>, the first one \<open>p\<close>.\<close>

fun prev_ok :: "(addr \<Rightarrow> block_meta option) \<Rightarrow> addr \<Rightarrow> addr list \<Rightarrow> bool" where
  "prev_ok m p [] = True"
| "prev_ok m p (a # as) =
     (case m a of None \<Rightarrow> False | Some b \<Rightarrow> prev_m b = p \<and> prev_ok m a as)"

text \<open>What the search of searchAndSplit looks at: a header that is FREE and at least
  \<open>req\<close> bytes large, and the size a header records.\<close>

definition fits :: "process \<Rightarrow> size_t \<Rightarrow> addr \<Rightarrow> bool" where
  "fits s req a = (case mem s a of None \<Rightarrow> False
                   | Some b \<Rightarrow> req \<le> size_m b \<and> status_m b = STATUS_FREE)"

definition size_at :: "process \<Rightarrow> addr \<Rightarrow> size_t" where
  "size_at s a = (case mem s a of None \<Rightarrow> 0 | Some b \<Rightarrow> size_m b)"

definition is_free :: "(addr \<Rightarrow> block_meta option) \<Rightarrow> addr \<Rightarrow> bool" where
  "is_free m a = (case m a of None \<Rightarrow> False | Some b \<Rightarrow> status_m b = STATUS_FREE)"

fun no_adj_free :: "(addr \<Rightarrow> block_meta option) \<Rightarrow> addr list \<Rightarrow> bool" where
  "no_adj_free m (a # c # as) = (\<not> (is_free m a \<and> is_free m c) \<and> no_adj_free m (c # as))"
| "no_adj_free m [a] = True"
| "no_adj_free m [] = True"

text \<open>The bytes of an arena block end at \<open>extent_end\<close>: header, then \<open>size\<close> bytes of
  payload. \<open>free_extents_clear s as ys\<close>: the extent of every FREE header of \<open>as\<close> stays
  inside the address space and holds no other header of \<open>as\<close> or \<open>ys\<close>.
  \<open>free_pairs_touch\<close>: where two FREE headers follow each other in the registry, the
  second starts where the first one's extent ends. \<open>arena_ok\<close> adds that the program
  break is a usable address at which no header of the registry sits.\<close>

definition extent_end :: "process \<Rightarrow> addr \<Rightarrow> nat" where
  "extent_end s a = unat a + unat (ALIGN sizeof_block_meta) + unat (size_at s a)"

definition free_extents_clear :: "process \<Rightarrow> addr list \<Rightarrow> addr list \<Rightarrow> bool" where
  "free_extents_clear s as ys =
     (\<forall>a\<in>set as. is_free (mem s) a \<longrightarrow>
        extent_end s a \<le> 2 ^ 64
        \<and> (\<forall>c\<in>set as \<union> set ys. \<not> (unat a < unat c \<and> unat c < extent_end s a)))"

fun free_pairs_touch :: "process \<Rightarrow> addr list \<Rightarrow> bool" where
  "free_pairs_touch s (a # c # as) =
     ((is_free (mem s) a \<and> is_free (mem s) c \<longrightarrow> unat c = extent_end s a)
      \<and> free_pairs_touch s (c # as))"
| "free_pairs_touch s [a] = True"
| "free_pairs_touch s [] = True"

definition arena_ok :: "process \<Rightarrow> addr list \<Rightarrow> bool" where
  "arena_ok s as =
     (free_extents_clear s as [] \<and> free_pairs_touch s as \<and> brk s \<notin> set as \<and> brk s \<noteq> 0)"

text \<open>A process that has not called the allocator yet: no header, globals zero, the
  kernel's side given by the initial break, its limit, the first mapping address and the
  page size.\<close>

definition fresh :: "addr \<Rightarrow> addr \<Rightarrow> addr \<Rightarrow> size_t \<Rightarrow> process" where
  "fresh base lim mp pg =
     \<lparr>mem = (\<lambda>_. None), bytes = (\<lambda>_. 0), head = 0, preallocHeap = 0, callocType = 0,
      reallocType = 0, brk = base, brk_max = lim, map_next = mp, pagesize = pg, trace = []\<rparr>"

definition proc0 :: process where
  "proc0 = fresh 0x10000 0x10000000 0x7f0000000000 4096"

text \<open>\<open>proc0\<close> after \<open>os_malloc(100)\<close> and \<open>os_free\<close> of the pointer it returned: the
  slab is the only block, and it is FREE.\<close>

definition freed0 :: process where
  "freed0 = proc0\<lparr>mem := [0x10000 \<mapsto> \<lparr>size_m = 131040, status_m = STATUS_FREE, prev_m = 0, next_m = 0\<rparr>],
      head := 0x10000, preallocHeap := 1, brk := 0x30000, trace := [SBRK 131072]\<rparr>"

text \<open>\<open>proc0\<close> after two \<open>os_malloc(100)\<close> and \<open>os_free\<close> of both pointers: the slab
  and the block that follows it, both FREE.\<close>

definition two_free0 :: process where
  "two_free0 = proc0\<lparr>mem := [0x10000 \<mapsto> \<lparr>size_m = 131040, status_m = STATUS_FREE, prev_m = 0, next_m = 0x30000\<rparr>,
                           0x30000 \<mapsto> \<lparr>size_m = 104, status_m = STATUS_FREE, prev_m = 0x10000, next_m = 0\<rparr>],
      head := 0x10000, preallocHeap := 1, brk := 0x30088, trace := [SBRK 131072, SBRK 136]\<rparr>"

text \<open>\<open>proc0\<close> with every payload byte holding the non-zero value \<open>0xAA\<close>, so that
  zeroing shows.\<close>

definition garbage0 :: process where
  "garbage0 = proc0\<lparr>bytes := (\<lambda>_. 0xAA)\<rparr>"

text \<open>A client program: a sequence of calls of the public interface. A pointer argument
  is given by the position of an earlier call that returned it (NULL when there is no
  such call); \<open>run\<close> collects the returned pointers in order.\<close>

datatype call = Malloc size_t | Calloc size_t size_t | Realloc nat size_t | Free nat

definition ptr_at :: "addr list \<Rightarrow> nat \<Rightarrow> addr" where
  "ptr_at ps i = (if i < length ps then ps ! i else 0)"

fun run :: "call list \<Rightarrow> addr list \<Rightarrow> process \<Rightarrow> (addr list \<times> process) result" where
  "run [] ps s = returns (ps, s)"
| "run (Malloc n # cs) ps s = then_do (os_malloc n s) (\<lambda>(p, s'). run cs (ps @ [p]) s')"
| "run (Calloc n k # cs) ps s = then_do (os_calloc n k s) (\<lambda>(p, s'). run cs (ps @ [p]) s')"
| "run (Realloc i n # cs) ps s =
     then_do (os_realloc (ptr_at ps i) n s) (\<lambda>(p, s'). run cs (ps @ [p]) s')"
| "run (Free i # cs) ps s = then_do (os_free (ptr_at ps i) s) (\<lambda>s'. run cs ps s')"

text \<open>What a client or a system-call tracer sees of a finished run.\<close>

definition pointers :: "(addr list \<times> process) result \<Rightarrow> addr list result" where
  "pointers r = then_do r (\<lambda>(ps, s). returns ps)"

definition syscalls :: "(addr list \<times> process) result \<Rightarrow> syscall list result" where
  "syscalls r = then_do r (\<lambda>(ps, s). returns (trace s))"

definition header_at :: "addr \<Rightarrow> (addr list \<times> process) result \<Rightarrow> block_meta option result" where
  "header_at a r = then_do r (\<lambda>(ps, s). returns (mem s a))"

definition registry_head :: "(addr list \<times> process) result \<Rightarrow> addr result" where
  "registry_head r = then_do r (\<lambda>(ps, s). returns (head s))"

definition registry_is :: "addr list \<Rightarrow> (addr list \<times> process) result \<Rightarrow> bool result" where
  "registry_is as r = then_do r (\<lambda>(ps, s). returns (chain (mem s) (head s) as))"

definition prev_links_ok :: "addr list \<Rightarrow> (addr list \<times> process) result \<Rightarrow> bool result" where
  "prev_links_ok as r = then_do r (\<lambda>(ps, s). returns (prev_ok (mem s) 0 as))"

definition payload_bytes :: "(addr list \<times> process) result \<Rightarrow> (addr \<Rightarrow> 8 word) result" where
  "payload_bytes r = then_do r (\<lambda>(ps, s). returns (bytes s))"

definition mode_flags :: "(addr list \<times> process) result \<Rightarrow> (int \<times> int) result" where
  "mode_flags r = then_do r (\<lambda>(ps, s). returns (callocType s, reallocType s))"

text \<open>\<open>proc0\<close> after \<open>os_malloc(100)\<close>: the slab is the only block, and it is
  ALLOC. \<open>proc0\<close> after \<open>os_malloc(200 * 1024)\<close>: one mapped block.\<close>

definition live0 :: process where
  "live0 = proc0\<lparr>mem := [0x10000 \<mapsto> \<lparr>size_m = 131040, status_m = STATUS_ALLOC, prev_m = 0, next_m = 0\<rparr>],
      head := 0x10000, preallocHeap := 1, brk := 0x30000, trace := [SBRK 131072]\<rparr>"

definition mapped0 :: process where
  "mapped0 = proc0\<lparr>mem := [0x7f0000000000 \<mapsto> \<lparr>size_m = 204832, status_m = STATUS_MAPPED, prev_m = 0, next_m = 0\<rparr>],
      head := 0x7f0000000000, map_next := 0x7f0000033000, trace := [MMAP 204832]\<rparr>"

text \<open>A client that leaves three FREE blocks of 504, 304 and 304 bytes in the registry,
  each between two ALLOC blocks, and the state it leaves on \<open>proc0\<close>.\<close>

definition interleaved :: "call list" where
  "interleaved = [Malloc 100, Malloc 500, Malloc 100, Malloc 300, Malloc 100, Malloc 300, Malloc 100,
                  Free 1, Free 3, Free 5]"

definition interleaved0 :: process where
  "interleaved0 = proc0\<lparr>mem :=
       [0x10000 \<mapsto> \<lparr>size_m = 131040, status_m = STATUS_ALLOC, prev_m = 0, next_m = 0x30000\<rparr>,
        0x30000 \<mapsto> \<lparr>size_m = 504, status_m = STATUS_FREE, prev_m = 0x10000, next_m = 0x30218\<rparr>,
        0x30218 \<mapsto> \<lparr>size_m = 104, status_m = STATUS_ALLOC, prev_m = 0x30000, next_m = 0x302a0\<rparr>,
        0x302a0 \<mapsto> \<lparr>size_m = 304, status_m = STATUS_FREE, prev_m = 0x30218, next_m = 0x303f0\<rparr>,
        0x303f0 \<mapsto> \<lparr>size_m = 104, status_m = STATUS_ALLOC, prev_m = 0x302a0, next_m = 0x30478\<rparr>,
        0x30478 \<mapsto> \<lparr>size_m = 304, status_m = STATUS_FREE, prev_m = 0x303f0, next_m = 0x305c8\<rparr>,
        0x305c8 \<mapsto> \<lparr>size_m = 104, status_m = STATUS_ALLOC, prev_m = 0x30478, next_m = 0\<rparr>],
      head := 0x10000, preallocHeap := 1, brk := 0x30650,
      trace := [SBRK 131072, SBRK 536, SBRK 136, SBRK 336, SBRK 136, SBRK 336, SBRK 136]\<rparr>"

text \<open>The internal call \<open>searchAndSplit(&head, sz)\<close> on the state a run has reached;
  the header it returns is appended to the pointers of the run.\<close>

definition searchAndSplit_after :: "size_t \<Rightarrow> (addr list \<times> process) result \<Rightarrow> (addr list \<times> process) result" where
  "searchAndSplit_after sz r =
     then_do r (\<lambda>(ps, s). then_do (searchAndSplit (head s) sz s) (\<lambda>(bestFit, s'). returns (ps @ [bestFit], s')))"

section \<open>Basic facts\<close>

lemma then_do_returns: "then_do (returns x) f = f x"
  by (simp add: then_do_def returns_def)

lemma then_do_raise: "then_do (raise e) f = raise e"
  by (simp add: then_do_def raise_def)

lemma then_do_None: "then_do None f = None"
  by (simp add: then_do_def)

lemma returns_neq: "returns x \<noteq> raise e" "returns x \<noteq> None" "raise e \<noteq> None"
  "(returns x = returns y) = (x = y)"
  by (simp_all add: returns_def raise_def)

lemma load_Some: "p \<noteq> 0 \<Longrightarrow> mem s p = Some b \<Longrightarrow> load s p = returns b"
  by (simp add: load_def)

lemma store_Some:
  "p \<noteq> 0 \<Longrightarrow> mem s p = Some b \<Longrightarrow> store p f s = returns (s\<lparr>mem := (mem s)(p \<mapsto> f b)\<rparr>)"
  by (simp add: store_def load_Some then_do_returns)

lemma path_Cons:
  "path m p (a # as) q = (p = a \<and> a \<noteq> 0 \<and> (\<exists>b. m a = Some b \<and> path m (next_m b) as q))"
  by (auto split: option.splits)

lemma path_append: "path m p (xs @ ys) q = (\<exists>r. path m p xs r \<and> path m r ys q)"
  by (induction xs arbitrary: p) (auto simp: path_Cons simp del: path.simps(2))

lemma path_upd_notin: "a \<notin> set as \<Longrightarrow> path (m(a := v)) p as q = path m p as q"
  by (induction as arbitrary: p) (auto simp: path_Cons simp del: path.simps(2))

lemma path_nonzero: "path m p as q \<Longrightarrow> 0 \<notin> set as"
  by (induction as arbitrary: p) (auto simp: path_Cons simp del: path.simps(2))

lemma chain_Nil: "chain m p [] = (p = 0)"
  by (simp add: chain_def)

lemma chain_Cons:
  "chain m p (a # as) = (p = a \<and> a \<noteq> 0 \<and> (\<exists>b. m a = Some b \<and> chain m (next_m b) as))"
  by (simp add: chain_def path_Cons del: path.simps(2))

lemma chain_unique: "chain m p as \<Longrightarrow> chain m p bs \<Longrightarrow> as = bs"
proof (induction as arbitrary: p bs)
  case Nil
  then show ?case by (cases bs) (auto simp: chain_Nil chain_Cons)
next
  case (Cons a as)
  from Cons.prems(1) obtain b where b: "p = a" "a \<noteq> 0" "m a = Some b" "chain m (next_m b) as"
    by (auto simp: chain_Cons)
  show ?case
  proof (cases bs)
    case Nil
    with Cons.prems b show ?thesis by (simp add: chain_Nil)
  next
    case (Cons c cs)
    with Cons.prems(2) b have "c = a" "chain m (next_m b) cs" by (auto simp: chain_Cons)
    with Cons.IH b Cons show ?thesis by blast
  qed
qed

lemma chain_suffix: "chain m p (xs @ a # ys) \<Longrightarrow> chain m a (a # ys)"
  unfolding chain_def by (auto simp: path_append path_Cons simp del: path.simps(2))

lemma chain_notin_tail: "chain m p (a # as) \<Longrightarrow> a \<notin> set as"
proof
  assume c: "chain m p (a # as)" and "a \<in> set as"
  then obtain xs ys where as: "as = xs @ a # ys" by (meson split_list)
  from c as have "chain m p ((a # xs) @ a # ys)" by simp
  then have "chain m a (a # ys)" by (rule chain_suffix)
  moreover from c have "chain m a (a # as)" by (simp add: chain_Cons)
  ultimately have "a # ys = a # as" by (rule chain_unique)
  with as show False by simp
qed

lemma chain_distinct: "chain m p as \<Longrightarrow> distinct as"
proof (induction as arbitrary: p)
  case Nil
  then show ?case by simp
next
  case (Cons a as)
  from Cons.prems have "a \<notin> set as" by (rule chain_notin_tail)
  moreover from Cons.prems obtain b where "m a = Some b" "chain m (next_m b) as"
    by (auto simp: chain_Cons)
  ultimately show ?case using Cons.IH by auto
qed

lemma chain_upd_notin: "a \<notin> set as \<Longrightarrow> chain (m(a := v)) p as = chain m p as"
  by (simp add: chain_def path_upd_notin)

lemma chain_nonzero: "chain m p as \<Longrightarrow> 0 \<notin> set as"
  unfolding chain_def by (rule path_nonzero)

lemma chain_mem: "chain m p as \<Longrightarrow> a \<in> set as \<Longrightarrow> \<exists>b. m a = Some b"
proof -
  assume c: "chain m p as" and "a \<in> set as"
  then obtain xs ys where "as = xs @ a # ys" by (meson split_list)
  with c have "chain m a (a # ys)" using chain_suffix by blast
  then show ?thesis by (auto simp: chain_Cons)
qed

lemma walk_to_last_chain:
  "chain (mem s) p as \<Longrightarrow> as \<noteq> [] \<Longrightarrow> walk_to_last s p = returns (last as)"
proof (induction as arbitrary: p)
  case Nil
  then show ?case by simp
next
  case (Cons a as)
  from Cons.prems obtain b where b: "p = a" "a \<noteq> 0" "mem s a = Some b" "chain (mem s) (next_m b) as"
    by (auto simp: chain_Cons)
  show ?case
  proof (cases as)
    case Nil
    with b have "next_m b = 0" by (simp add: chain_Nil)
    with b Nil show ?thesis
      by (subst walk_to_last.simps) (simp add: load_Some returns_def)
  next
    case (Cons c cs)
    with b have "next_m b \<noteq> 0" by (auto simp: chain_Cons)
    moreover have "walk_to_last s (next_m b) = returns (last as)"
      using Cons.IH b Cons by simp
    ultimately show ?thesis using b Cons
      by (subst walk_to_last.simps) (simp add: load_Some returns_def)
  qed
qed

lemma chain_snoc:
  assumes "chain M p as" "as \<noteq> []" "M (last as) = Some lb" "m \<notin> set as" "m \<noteq> 0" "next_m nb = 0"
  shows "chain (M(last as \<mapsto> lb\<lparr>next_m := m\<rparr>, m \<mapsto> nb)) p (as @ [m])"
proof -
  let ?l = "last as" and ?xs = "butlast as"
  have as: "as = ?xs @ [?l]" using assms(2) by simp
  have d: "distinct as" using assms(1) by (rule chain_distinct)
  then have lx: "?l \<notin> set ?xs" using as by (metis distinct_append distinct.simps(2) disjoint_iff list.set_intros(1) append_Cons append_Nil distinct_butlast not_distinct_conv_prefix) 
  have mx: "m \<notin> set ?xs" using assms(4) by (meson in_set_butlastD)
  have l0: "?l \<noteq> 0" using chain_nonzero [OF assms(1)] assms(2) by (metis last_in_set)
  have lm: "?l \<noteq> m" using assms(2,4) by (metis last_in_set)
  from assms(1) as have "path M p (?xs @ [?l]) 0" by (simp add: chain_def)
  then have p1: "path M p ?xs ?l" by (auto simp: path_append path_Cons simp del: path.simps(2))
  let ?M = "M(?l \<mapsto> lb\<lparr>next_m := m\<rparr>, m \<mapsto> nb)"
  have "path ?M p ?xs ?l" using p1 lx mx by (simp add: path_upd_notin)
  moreover have "path ?M ?l [?l, m] 0" using l0 lm assms(5,6) by simp
  ultimately have "path ?M p (?xs @ [?l, m]) 0" by (auto simp add: path_append simp del: path.simps(2))
  moreover have "?xs @ [?l, m] = as @ [m]" using as by (metis append.assoc append_Cons append_Nil)
  ultimately show ?thesis by (simp add: chain_def)
qed

lemma sbrk_ok:
  assumes "0 \<le> sint n" "uint (brk s) + sint n \<le> uint (brk_max s)"
  shows "sbrk n s = (brk s, s\<lparr>trace := trace s @ [SBRK n], brk := brk s + n\<rparr>)"
    and "brk s \<noteq> - 1 \<or> n = 0"
proof -
  have "uint (brk s) \<ge> 0" by simp
  with assms have "\<not> (uint (brk s) + sint n < 0)" by linarith
  moreover have "word_of_int (uint (brk s) + sint n) = brk s + n" by simp
  ultimately show "sbrk n s = (brk s, s\<lparr>trace := trace s @ [SBRK n], brk := brk s + n\<rparr>)"
    using assms by (simp add: sbrk_def Let_def)
  show "brk s \<noteq> - 1 \<or> n = 0"
  proof (cases "n = 0")
    case True then show ?thesis by simp
  next
    case False
    then have "sint n \<noteq> 0" by (simp add: signed_eq_0_iff)
    with assms have pos: "0 < sint n" by simp
    have "uint (brk_max s) < 2 ^ 64" using uint_lt2p [of "brk_max s"] by simp
    with assms pos have "uint (brk s) < 2 ^ 64 - 1" by linarith
    moreover have "uint (- 1 :: 64 word) = 2 ^ 64 - 1"
      by (simp add: unsigned_minus_1_eq_mask mask_eq_exp_minus_1)
    ultimately have "brk s \<noteq> - 1" by auto
    then show ?thesis by simp
  qed
qed

lemma insertInList_chain:
  assumes "chain (mem s) (head s) as" "m \<notin> set as" "m \<noteq> 0" "mem s m = Some nb" "next_m nb = 0"
  shows "\<exists>s'. insertInList m s = returns s' \<and> chain (mem s') (head s') (as @ [m])
           \<and> s' = s\<lparr>head := head s', mem := mem s'\<rparr>
           \<and> (\<forall>x. x \<notin> set as \<longrightarrow> x \<noteq> m \<longrightarrow> mem s' x = mem s x)
           \<and> (\<forall>x b. mem s x = Some b \<longrightarrow> (\<exists>b'. mem s' x = Some b' \<and> size_m b' = size_m b \<and> status_m b' = status_m b))
           \<and> (\<forall>x \<in> set as. \<forall>b. mem s x = Some b \<longrightarrow> (\<exists>b'. mem s' x = Some b' \<and> prev_m b' = prev_m b))
           \<and> (\<exists>b'. mem s' m = Some b' \<and> prev_m b' = (if as = [] then 0 else last as))"
proof (cases as)
  case Nil
  with assms have h: "head s = 0" by (simp add: chain_Nil)
  have "insertInList m s = returns (s\<lparr>head := m, mem := (mem s)(m \<mapsto> nb\<lparr>prev_m := 0, next_m := 0\<rparr>)\<rparr>)"
    using assms h by (simp add: insertInList_def store_Some then_do_returns)
  then show ?thesis using assms Nil
    by (auto simp: returns_neq chain_Cons chain_Nil)
next
  case (Cons c cs)
  then have ne: "as \<noteq> []" by simp
  with assms have h: "head s \<noteq> 0" by (cases as) (auto simp: chain_Cons)
  have w: "walk_to_last s (head s) = returns (last as)"
    using assms(1) ne by (rule walk_to_last_chain)
  have lin: "last as \<in> set as" using ne by simp
  then have l0: "last as \<noteq> 0" using chain_nonzero [OF assms(1)] by metis
  from chain_mem [OF assms(1) lin] obtain lb where lb: "mem s (last as) = Some lb" by blast
  have neq: "last as \<noteq> m" using lin assms(2) by auto
  let ?M = "(mem s)(last as \<mapsto> lb\<lparr>next_m := m\<rparr>, m \<mapsto> nb\<lparr>prev_m := last as\<rparr>)"
  have ins: "insertInList m s = returns (s\<lparr>mem := ?M\<rparr>)"
    using h w lb l0 neq assms(3,4)
    by (simp add: insertInList_def store_Some then_do_returns)
  have ch: "chain ?M (head s) (as @ [m])"
    using chain_snoc [OF assms(1) ne lb assms(2,3), of "nb\<lparr>prev_m := last as\<rparr>"] assms(5) by simp
  show ?thesis using ins ch ne neq lb assms(2,4) lin by (auto simp: returns_neq)
qed

lemma block_all_fields:
  "b\<lparr>next_m := n, prev_m := p, size_m := z, status_m := t\<rparr>
     = \<lparr>size_m = z, status_m = t, prev_m = p, next_m = n\<rparr>"
  by (cases b) simp

lemma allocateSbrk_chain:
  assumes "chain (mem s) (head s) as" "brk s \<notin> set as" "brk s \<noteq> 0" "n \<noteq> 0" "0 \<le> sint n"
    "uint (brk s) + sint n \<le> uint (brk_max s)"
  shows "\<exists>s'. allocateSbrk n s = returns (brk s, s') \<and> chain (mem s') (head s') (as @ [brk s])
           \<and> s' = s\<lparr>head := head s', mem := mem s', brk := brk s + n, trace := trace s @ [SBRK n]\<rparr>
           \<and> (\<forall>x. x \<notin> set as \<longrightarrow> x \<noteq> brk s \<longrightarrow> mem s' x = mem s x)
           \<and> (\<forall>x b. x \<noteq> brk s \<longrightarrow> mem s x = Some b \<longrightarrow> (\<exists>b'. mem s' x = Some b' \<and> size_m b' = size_m b \<and> status_m b' = status_m b))
           \<and> (\<forall>x \<in> set as. \<forall>b. mem s x = Some b \<longrightarrow> (\<exists>b'. mem s' x = Some b' \<and> prev_m b' = prev_m b))
           \<and> (\<exists>b'. mem s' (brk s) = Some b' \<and> size_m b' = n - ALIGN sizeof_block_meta \<and> status_m b' = STATUS_ALLOC
                  \<and> prev_m b' = (if as = [] then 0 else last as))"
proof -
  let ?p = "brk s"
  let ?s1 = "s\<lparr>trace := trace s @ [SBRK n], brk := brk s + n\<rparr>"
  have sb: "sbrk n s = (?p, ?s1)" and p1: "?p \<noteq> - 1"
    using sbrk_ok [OF assms(5,6)] assms(4) by auto
  let ?nb = "\<lparr>size_m = n - ALIGN sizeof_block_meta, status_m = STATUS_ALLOC, prev_m = 0, next_m = 0\<rparr>"
  let ?s5 = "?s1\<lparr>mem := (mem s)(?p \<mapsto> ?nb)\<rparr>"
  have a: "allocateSbrk n s = then_do (insertInList ?p ?s5) (\<lambda>s6. returns (?p, s6))"
    using sb p1 assms(3)
    by (simp add: allocateSbrk_def as_block_def blank_def store_def load_def then_do_returns
           block_all_fields split: option.splits)
  have c5: "chain (mem ?s5) (head ?s5) as" using assms(1,2) by (simp add: chain_upd_notin)
  from insertInList_chain [OF c5, of ?p ?nb] assms(2,3)
  obtain s' where s': "insertInList ?p ?s5 = returns s'" "chain (mem s') (head s') (as @ [?p])"
     "s' = ?s5\<lparr>head := head s', mem := mem s'\<rparr>"
     "\<forall>x. x \<notin> set as \<longrightarrow> x \<noteq> ?p \<longrightarrow> mem s' x = mem ?s5 x"
     "\<forall>x b. mem ?s5 x = Some b \<longrightarrow> (\<exists>b'. mem s' x = Some b' \<and> size_m b' = size_m b \<and> status_m b' = status_m b)"
     "\<forall>x \<in> set as. \<forall>b. mem ?s5 x = Some b \<longrightarrow> (\<exists>b'. mem s' x = Some b' \<and> prev_m b' = prev_m b)"
     "\<exists>b'. mem s' ?p = Some b' \<and> prev_m b' = (if as = [] then 0 else last as)"
    by auto
  have "allocateSbrk n s = returns (?p, s')" using a s'(1) by (simp add: then_do_returns)
  moreover have "s' = s\<lparr>head := head s', mem := mem s', brk := brk s + n, trace := trace s @ [SBRK n]\<rparr>"
    by (subst s'(3)) simp
  moreover have "\<forall>x. x \<notin> set as \<longrightarrow> x \<noteq> ?p \<longrightarrow> mem s' x = mem s x" using s'(4) by simp
  moreover have "\<forall>x b. x \<noteq> ?p \<longrightarrow> mem s x = Some b \<longrightarrow> (\<exists>b'. mem s' x = Some b' \<and> size_m b' = size_m b \<and> status_m b' = status_m b)"
    using s'(5) by simp
  moreover have "\<forall>x \<in> set as. \<forall>b. mem s x = Some b \<longrightarrow> (\<exists>b'. mem s' x = Some b' \<and> prev_m b' = prev_m b)"
  proof (intro ballI allI impI)
    fix x b assume x: "x \<in> set as" "mem s x = Some b"
    with assms(2) have "x \<noteq> ?p" by auto
    with x have "mem ?s5 x = Some b" by simp
    with s'(6) x(1) show "\<exists>b'. mem s' x = Some b' \<and> prev_m b' = prev_m b" by blast
  qed
  moreover have "\<exists>b'. mem s' ?p = Some b' \<and> size_m b' = n - ALIGN sizeof_block_meta \<and> status_m b' = STATUS_ALLOC
                  \<and> prev_m b' = (if as = [] then 0 else last as)"
    using s'(5) [rule_format, of ?p ?nb] s'(7) by auto
  ultimately show ?thesis using s'(2) by blast
qed

lemma best_fit_chain:
  assumes "chain (mem s) tmp as" and "bf = 0 \<or> (\<exists>b. mem s bf = Some b)"
  shows "\<exists>r. best_fit s req tmp bf = returns r \<and>
           ((r = bf \<and> (\<forall>a\<in>set as. fits s req a \<longrightarrow> bf \<noteq> 0 \<and> size_at s bf \<le> size_at s a))
            \<or> (r \<in> set as \<and> fits s req r \<and> (bf \<noteq> 0 \<longrightarrow> size_at s r < size_at s bf)
                \<and> (\<forall>a\<in>set as. fits s req a \<longrightarrow> size_at s r \<le> size_at s a)
                \<and> (\<forall>a\<in>set (takeWhile (\<lambda>x. x \<noteq> r) as). fits s req a \<longrightarrow> size_at s r < size_at s a)))"
  using assms
proof (induction as arbitrary: tmp bf)
  case Nil
  then have "tmp = 0" by (simp add: chain_Nil)
  then show ?case by (subst best_fit.simps) (simp add: returns_def)
next
  case (Cons a as)
  from Cons.prems(1) obtain b where b: "tmp = a" "a \<noteq> 0" "mem s a = Some b"
      "chain (mem s) (next_m b) as"
    by (auto simp: chain_Cons)
  have anotin: "a \<notin> set as" using Cons.prems(1) by (rule chain_notin_tail)
  have la: "load s a = returns b" using b by (simp add: load_Some)
  have fa: "fits s req a = (req \<le> size_m b \<and> status_m b = STATUS_FREE)"
    using b by (simp add: fits_def)
  have sa: "size_at s a = size_m b" using b by (simp add: size_at_def)
  show ?case
  proof (cases "fits s req a")
    case False
    have step: "best_fit s req tmp bf = best_fit s req (next_m b) bf"
      using b la False fa by (subst best_fit.simps) (auto simp: returns_def)
    from Cons.IH [OF b(4) Cons.prems(2)] obtain r where
      r: "best_fit s req (next_m b) bf = returns r"
         "(r = bf \<and> (\<forall>a\<in>set as. fits s req a \<longrightarrow> bf \<noteq> 0 \<and> size_at s bf \<le> size_at s a))
            \<or> (r \<in> set as \<and> fits s req r \<and> (bf \<noteq> 0 \<longrightarrow> size_at s r < size_at s bf)
                \<and> (\<forall>a\<in>set as. fits s req a \<longrightarrow> size_at s r \<le> size_at s a)
                \<and> (\<forall>a\<in>set (takeWhile (\<lambda>x. x \<noteq> r) as). fits s req a \<longrightarrow> size_at s r < size_at s a))"
      by blast
    from r(2) show ?thesis
    proof
      assume "r = bf \<and> (\<forall>a\<in>set as. fits s req a \<longrightarrow> bf \<noteq> 0 \<and> size_at s bf \<le> size_at s a)"
      then show ?thesis using step r(1) False by auto
    next
      assume h: "r \<in> set as \<and> fits s req r \<and> (bf \<noteq> 0 \<longrightarrow> size_at s r < size_at s bf)
                \<and> (\<forall>a\<in>set as. fits s req a \<longrightarrow> size_at s r \<le> size_at s a)
                \<and> (\<forall>a\<in>set (takeWhile (\<lambda>x. x \<noteq> r) as). fits s req a \<longrightarrow> size_at s r < size_at s a)"
      then have "r \<noteq> a" using anotin by auto
      then show ?thesis using step r(1) h False by auto
    qed
  next
    case True
    show ?thesis
    proof (cases "bf = 0 \<or> size_at s a < size_at s bf")
      case better: True
      have step: "best_fit s req tmp bf = best_fit s req (next_m b) a"
      proof (cases "bf = 0")
        case True
        then show ?thesis using b la \<open>fits s req a\<close> fa
          by (subst best_fit.simps) (auto simp: returns_def)
      next
        case False
        with Cons.prems(2) obtain bb where bb: "mem s bf = Some bb" by blast
        then have "load s bf = returns bb" using False by (simp add: load_Some)
        moreover have "size_m b < size_m bb" using better False bb sa by (simp add: size_at_def)
        ultimately show ?thesis using b la \<open>fits s req a\<close> fa False
          by (subst best_fit.simps) (auto simp: returns_def)
      qed
      have "a = 0 \<or> (\<exists>b. mem s a = Some b)" using b by simp
      from Cons.IH [OF b(4) this] obtain r where
        r: "best_fit s req (next_m b) a = returns r"
         "(r = a \<and> (\<forall>x\<in>set as. fits s req x \<longrightarrow> a \<noteq> 0 \<and> size_at s a \<le> size_at s x))
            \<or> (r \<in> set as \<and> fits s req r \<and> (a \<noteq> 0 \<longrightarrow> size_at s r < size_at s a)
                \<and> (\<forall>x\<in>set as. fits s req x \<longrightarrow> size_at s r \<le> size_at s x)
                \<and> (\<forall>x\<in>set (takeWhile (\<lambda>x. x \<noteq> r) as). fits s req x \<longrightarrow> size_at s r < size_at s x))"
        by blast
      from r(2) show ?thesis
      proof
        assume h: "r = a \<and> (\<forall>x\<in>set as. fits s req x \<longrightarrow> a \<noteq> 0 \<and> size_at s a \<le> size_at s x)"
        then show ?thesis using step r(1) True better by auto
      next
        assume h: "r \<in> set as \<and> fits s req r \<and> (a \<noteq> 0 \<longrightarrow> size_at s r < size_at s a)
                \<and> (\<forall>x\<in>set as. fits s req x \<longrightarrow> size_at s r \<le> size_at s x)
                \<and> (\<forall>x\<in>set (takeWhile (\<lambda>x. x \<noteq> r) as). fits s req x \<longrightarrow> size_at s r < size_at s x)"
        then have ra: "r \<noteq> a" using anotin by auto
        have lt: "size_at s r < size_at s a" using h b(2) by simp
        have "bf \<noteq> 0 \<longrightarrow> size_at s r < size_at s bf" using lt better by auto
        then show ?thesis using step r(1) h ra lt by auto
      qed
    next
      case worse: False
      then have bf0: "bf \<noteq> 0" and ge: "size_at s bf \<le> size_at s a" by auto
      with Cons.prems(2) obtain bb where bb: "mem s bf = Some bb" by blast
      then have lb: "load s bf = returns bb" using bf0 by (simp add: load_Some)
      have nlt: "\<not> size_m b < size_m bb" using ge bb sa by (simp add: size_at_def)
      have step: "best_fit s req tmp bf = best_fit s req (next_m b) bf"
        using b la lb \<open>fits s req a\<close> fa bf0 nlt
        by (subst best_fit.simps) (auto simp: returns_def)
      from Cons.IH [OF b(4) Cons.prems(2)] obtain r where
        r: "best_fit s req (next_m b) bf = returns r"
         "(r = bf \<and> (\<forall>a\<in>set as. fits s req a \<longrightarrow> bf \<noteq> 0 \<and> size_at s bf \<le> size_at s a))
            \<or> (r \<in> set as \<and> fits s req r \<and> (bf \<noteq> 0 \<longrightarrow> size_at s r < size_at s bf)
                \<and> (\<forall>a\<in>set as. fits s req a \<longrightarrow> size_at s r \<le> size_at s a)
                \<and> (\<forall>a\<in>set (takeWhile (\<lambda>x. x \<noteq> r) as). fits s req a \<longrightarrow> size_at s r < size_at s a))"
        by blast
      from r(2) show ?thesis
      proof
        assume "r = bf \<and> (\<forall>a\<in>set as. fits s req a \<longrightarrow> bf \<noteq> 0 \<and> size_at s bf \<le> size_at s a)"
        then show ?thesis using step r(1) bf0 ge by auto
      next
        assume h: "r \<in> set as \<and> fits s req r \<and> (bf \<noteq> 0 \<longrightarrow> size_at s r < size_at s bf)
                \<and> (\<forall>a\<in>set as. fits s req a \<longrightarrow> size_at s r \<le> size_at s a)
                \<and> (\<forall>a\<in>set (takeWhile (\<lambda>x. x \<noteq> r) as). fits s req a \<longrightarrow> size_at s r < size_at s a)"
        then have ra: "r \<noteq> a" using anotin by auto
        have "size_at s r < size_at s a" using h bf0 ge by auto
        then show ?thesis using step r(1) h ra by auto
      qed
    qed
  qed
qed

lemma new_block_fields:
  "n\<lparr>size_m := z, status_m := t, next_m := x, prev_m := p\<rparr>
     = \<lparr>size_m = z, status_m = t, prev_m = p, next_m = x\<rparr>"
  by (cases n) simp

lemma split_state:
  assumes b: "mem s bf = Some b" and bf0: "bf \<noteq> 0" and nb0: "bf + sz \<noteq> 0" and sz0: "sz \<noteq> 0"
    and big: "ALIGN 1 + sz \<le> size_m b"
  shows "then_do (store bf (\<lambda>b. b\<lparr>status_m := STATUS_ALLOC\<rparr>) s) (\<lambda>s1.
        then_do (load s1 bf) (\<lambda>b1.
        if ALIGN 1 + sz \<le> size_m b1 then
          (let newBlock = bf + sz in
           then_do (store newBlock (\<lambda>n. n\<lparr>size_m := size_m b1 - sz\<rparr>) (as_block newBlock s1)) (\<lambda>s2.
           then_do (store newBlock (\<lambda>n. n\<lparr>status_m := STATUS_FREE\<rparr>) s2) (\<lambda>s3.
           then_do (store bf (\<lambda>b. b\<lparr>size_m := req\<rparr>) s3) (\<lambda>s4.
           then_do (load s4 bf) (\<lambda>b4.
           then_do (store newBlock (\<lambda>n. n\<lparr>next_m := next_m b4\<rparr>) s4) (\<lambda>s5.
           then_do (store bf (\<lambda>b. b\<lparr>next_m := newBlock\<rparr>) s5) (\<lambda>s6.
           then_do (store newBlock (\<lambda>n. n\<lparr>prev_m := bf\<rparr>) s6) (\<lambda>s7.
           returns (bf, s7)))))))))
        else returns (bf, s1)))
      = returns (bf, s\<lparr>mem := (mem s)(bf \<mapsto> b\<lparr>status_m := STATUS_ALLOC, size_m := req, next_m := bf + sz\<rparr>,
            bf + sz \<mapsto> \<lparr>size_m = size_m b - sz, status_m = STATUS_FREE, prev_m = bf, next_m = next_m b\<rparr>)\<rparr>)"
proof -
  have neq: "bf + sz \<noteq> bf" using sz0 by simp
  show ?thesis
    using b bf0 nb0 neq big
    by (cases "mem s (bf + sz)")
       (simp_all add: store_def load_def then_do_returns as_block_def Let_def new_block_fields
          fun_upd_twist)
qed

lemma H32: "ALIGN sizeof_block_meta = 32"
  by (simp add: ALIGN_def ALIGNMENT_def sizeof_block_meta_def)

lemma merged_size:
  fixes a c sa sc :: "64 word"
  assumes "unat c = unat a + 32 + unat sa" and "unat c + 32 + unat sc \<le> 2 ^ 64"
  shows "unat (sa + (sc + 32)) = unat sa + unat sc + 32"
proof -
  have "unat sc + unat (32 :: 64 word) < 2 ^ LENGTH(64)" using assms by simp
  then have 1: "unat (sc + 32) = unat sc + 32" by (simp add: unat_add_lem [THEN iffD1])
  have "unat sa + unat (sc + 32) < 2 ^ LENGTH(64)" using assms 1 by simp
  then have "unat (sa + (sc + 32)) = unat sa + unat (sc + 32)" by (simp only: unat_add_lem [THEN iffD1])
  with 1 show ?thesis by simp
qed

lemma is_free_upd_same_status:
  "m a = Some b \<Longrightarrow> status_m b' = status_m b \<Longrightarrow> is_free (m(a \<mapsto> b')) x = is_free m x"
  by (simp add: is_free_def)

lemma size_at_upd: "size_at (s\<lparr>mem := (mem s)(a \<mapsto> b')\<rparr>) x = (if x = a then size_m b' else size_at s x)"
  by (simp add: size_at_def)

lemma extent_end_upd:
  "extent_end (s\<lparr>mem := (mem s)(a \<mapsto> b')\<rparr>) x
     = (if x = a then unat a + unat (ALIGN sizeof_block_meta) + unat (size_m b') else extent_end s x)"
  by (simp add: extent_end_def size_at_upd)

lemma no_adj_free_Cons:
  "no_adj_free m (a # as) = ((as \<noteq> [] \<longrightarrow> \<not> (is_free m a \<and> is_free m (hd as))) \<and> no_adj_free m as)"
  by (cases as) auto

lemma free_pairs_touch_Cons:
  "free_pairs_touch s (a # as) =
     ((as \<noteq> [] \<longrightarrow> (is_free (mem s) a \<and> is_free (mem s) (hd as) \<longrightarrow> unat (hd as) = extent_end s a))
      \<and> free_pairs_touch s as)"
  by (cases as) auto

lemma free_pairs_touch_frame:
  "\<forall>x\<in>set as. is_free (mem s') x = is_free (mem s) x \<and> extent_end s' x = extent_end s x
     \<Longrightarrow> free_pairs_touch s' as = free_pairs_touch s as"
  by (induction as rule: free_pairs_touch.induct) auto

lemma merge_sweep_chain:
  "\<lbrakk>chain (mem s) p as; as \<noteq> []; free_extents_clear s as ys; set ys \<inter> set as = {};
    free_pairs_touch s as\<rbrakk> \<Longrightarrow>
   \<exists>s' as'. merge_sweep p s = returns s' \<and> s' = s\<lparr>mem := mem s'\<rparr> \<and> chain (mem s') p as'
      \<and> as' \<noteq> [] \<and> set as' \<subseteq> set as \<and> free_extents_clear s' as' ys
      \<and> no_adj_free (mem s') as'
      \<and> (\<forall>x. x \<notin> set as \<longrightarrow> mem s' x = mem s x)
      \<and> (\<forall>x. is_free (mem s') x = is_free (mem s) x)"
proof (induction "length as" arbitrary: s p as ys rule: less_induct)
  case less
  from less.prems(2) obtain a rest where as: "as = a # rest" by (cases as) auto
  from less.prems(1) as obtain b where b: "p = a" "a \<noteq> 0" "mem s a = Some b"
      "chain (mem s) (next_m b) rest"
    by (auto simp: chain_Cons)
  have la: "load s a = returns b" using b by (simp add: load_Some)
  have anotin: "a \<notin> set rest" using less.prems(1) as chain_notin_tail by blast
  show ?case
  proof (cases rest)
    case Nil
    with b have n0: "next_m b = 0" by (simp add: chain_Nil)
    have "merge_sweep p s = returns s"
      using b la n0 by (subst merge_sweep.simps) (simp add: returns_def)
    moreover have "s = s\<lparr>mem := mem s\<rparr>" by simp
    moreover have "chain (mem s) p [a]" using less.prems(1) as Nil by simp
    moreover have "free_extents_clear s [a] ys" using less.prems(3) as Nil by simp
    ultimately show ?thesis using as Nil
      by (intro exI [of _ s] exI [of _ "[a]"]) simp
  next
    case (Cons c cs)
    from b(4) Cons obtain cb where cb: "next_m b = c" "c \<noteq> 0" "mem s c = Some cb"
        "chain (mem s) (next_m cb) cs"
      by (auto simp: chain_Cons)
    have lc: "load s c = returns cb" using cb by (simp add: load_Some)
    have ac: "a \<noteq> c" using anotin Cons by auto
    have cnotin: "c \<notin> set cs" using b(4) Cons cb chain_notin_tail by blast
    have anotin': "a \<notin> set cs" using anotin Cons by auto
    show ?thesis
    proof (cases "status_m b = STATUS_FREE \<and> status_m cb = STATUS_FREE")
      case True
      let ?b' = "b\<lparr>size_m := size_m b + (size_m cb + ALIGN sizeof_block_meta), next_m := next_m cb\<rparr>"
      let ?s1 = "s\<lparr>mem := (mem s)(a \<mapsto> ?b')\<rparr>"
      have step: "merge_sweep p s = merge_sweep a ?s1"
        using b la lc cb True by (subst merge_sweep.simps) (simp add: returns_def)
      have fa: "is_free (mem s) a" "is_free (mem s) c"
        using True b cb by (simp_all add: is_free_def)
      have touch: "unat c = extent_end s a"
        using less.prems(5) as Cons fa by simp
      have ea: "extent_end s a = unat a + 32 + unat (size_m b)"
        using b by (simp add: extent_end_def size_at_def H32)
      have ec: "extent_end s c = unat c + 32 + unat (size_m cb)"
        using cb by (simp add: extent_end_def size_at_def H32)
      have cin: "c \<in> set as" using as Cons by simp
      have ain: "a \<in> set as" using as by simp
      have ec64: "extent_end s c \<le> 2 ^ 64"
        using less.prems(3) cin fa by (auto simp: free_extents_clear_def)
      have ms: "unat (size_m b + (size_m cb + 32)) = unat (size_m b) + unat (size_m cb) + 32"
        by (rule merged_size [of c a]) (use touch ea ec ec64 in simp_all)
      have ea1: "extent_end ?s1 a = extent_end s c"
        using ms touch ea ec by (simp add: extent_end_upd H32)
      have ex1: "\<And>x. x \<noteq> a \<Longrightarrow> extent_end ?s1 x = extent_end s x"
        by (simp add: extent_end_upd)
      have fr1: "\<And>x. is_free (mem ?s1) x = is_free (mem s) x"
        using b by (simp add: is_free_def)
      have ch1: "chain (mem ?s1) a (a # cs)"
        using b cb anotin' by (simp add: chain_Cons chain_upd_notin)
      have sub1: "set ys \<inter> set (a # cs) = {}" using less.prems(4) as Cons by auto
      have fec1: "free_extents_clear ?s1 (a # cs) ys"
        unfolding free_extents_clear_def
      proof (intro ballI impI conjI)
        fix x assume x: "x \<in> set (a # cs)" "is_free (mem ?s1) x"
        then have xin: "x \<in> set as" using as Cons by auto
        have xf: "is_free (mem s) x" using x fr1 by simp
        show "extent_end ?s1 x \<le> 2 ^ 64"
        proof (cases "x = a")
          case True then show ?thesis using ea1 ec64 by simp
        next
          case False
          then show ?thesis using ex1 less.prems(3) xin xf by (auto simp: free_extents_clear_def)
        qed
        fix d assume d: "d \<in> set (a # cs) \<union> set ys"
        then have din: "d \<in> set as \<union> set ys" using as Cons by auto
        have dc: "d \<noteq> c" using d cnotin ac less.prems(4) cin by auto
        show "\<not> (unat x < unat d \<and> unat d < extent_end ?s1 x)"
        proof (cases "x = a")
          case True
          have 1: "\<not> (unat a < unat d \<and> unat d < extent_end s a)"
            using less.prems(3) ain fa din by (auto simp: free_extents_clear_def)
          have 2: "\<not> (unat c < unat d \<and> unat d < extent_end s c)"
            using less.prems(3) cin fa din by (auto simp: free_extents_clear_def)
          have "unat d \<noteq> unat c" using dc by (simp add: word_unat_eq_iff)
          with 1 2 touch True ea1 show ?thesis by auto
        next
          case False
          then show ?thesis using ex1 less.prems(3) xin xf din
            by (auto simp: free_extents_clear_def)
        qed
      qed
      have fpt1: "free_pairs_touch ?s1 (a # cs)"
      proof -
        have tail: "free_pairs_touch s cs" using less.prems(5) as Cons
          by (simp add: free_pairs_touch_Cons)
        have "free_pairs_touch ?s1 cs = free_pairs_touch s cs"
        proof (rule free_pairs_touch_frame, intro ballI conjI)
          fix x assume "x \<in> set cs"
          then have "x \<noteq> a" using anotin' by auto
          then show "extent_end ?s1 x = extent_end s x" by (rule ex1)
          show "is_free (mem ?s1) x = is_free (mem s) x" by (rule fr1)
        qed
        moreover have "cs \<noteq> [] \<longrightarrow> is_free (mem s) (hd cs) \<longrightarrow> unat (hd cs) = extent_end s c"
          using less.prems(5) as Cons fa by (cases cs) auto
        ultimately show ?thesis using tail fr1 ea1
          by (simp add: free_pairs_touch_Cons)
      qed
      have len: "length (a # cs) < length as" using as Cons by simp
      from less.hyps [OF len ch1 _ fec1 sub1 fpt1]
      obtain s' as' where r: "merge_sweep a ?s1 = returns s'" "s' = ?s1\<lparr>mem := mem s'\<rparr>"
          "chain (mem s') a as'" "as' \<noteq> []" "set as' \<subseteq> set (a # cs)"
          "free_extents_clear s' as' ys" "no_adj_free (mem s') as'"
          "\<forall>x. x \<notin> set (a # cs) \<longrightarrow> mem s' x = mem ?s1 x"
          "\<forall>x. is_free (mem s') x = is_free (mem ?s1) x"
        by auto
      have "merge_sweep p s = returns s'" using step r(1) by simp
      moreover have "s' = s\<lparr>mem := mem s'\<rparr>" by (subst r(2)) simp
      moreover have "chain (mem s') p as'" using r(3) b by simp
      moreover have "set as' \<subseteq> set as" using r(5) as Cons by auto
      moreover have "\<forall>x. x \<notin> set as \<longrightarrow> mem s' x = mem s x"
        using r(8) as Cons by auto
      moreover have "\<forall>x. is_free (mem s') x = is_free (mem s) x" using r(9) fr1 by simp
      ultimately show ?thesis using r(4,6,7) by blast
    next
      case False
      have step: "merge_sweep p s = merge_sweep c s"
        using b la lc cb False by (subst merge_sweep.simps) (auto simp: returns_def)
      have ch2: "chain (mem s) c (c # cs)" using b(4) Cons cb by simp
      have fec2: "free_extents_clear s (c # cs) (a # ys)"
        using less.prems(3) as Cons unfolding free_extents_clear_def by auto
      have sub2: "set (a # ys) \<inter> set (c # cs) = {}"
        using less.prems(4) as Cons anotin by auto
      have fpt2: "free_pairs_touch s (c # cs)" using less.prems(5) as Cons by simp
      have len: "length (c # cs) < length as" using as Cons by simp
      from less.hyps [OF len ch2 _ fec2 sub2 fpt2]
      obtain s' as' where r: "merge_sweep c s = returns s'" "s' = s\<lparr>mem := mem s'\<rparr>"
          "chain (mem s') c as'" "as' \<noteq> []" "set as' \<subseteq> set (c # cs)"
          "free_extents_clear s' as' (a # ys)" "no_adj_free (mem s') as'"
          "\<forall>x. x \<notin> set (c # cs) \<longrightarrow> mem s' x = mem s x"
          "\<forall>x. is_free (mem s') x = is_free (mem s) x"
        by auto
      have ma: "mem s' a = Some b" using r(8) anotin Cons b by auto
      have hd': "hd as' = c" using r(3,4) by (cases as') (auto simp: chain_Cons)
      have anew: "a \<notin> set as'" using r(5) anotin Cons by auto
      have ch: "chain (mem s') p (a # as')" using b ma cb r(3) by (simp add: chain_Cons)
      have naf: "no_adj_free (mem s') (a # as')"
      proof -
        have "\<not> (is_free (mem s) a \<and> is_free (mem s) c)"
          using False b cb by (simp add: is_free_def)
        then show ?thesis using r(7,9) hd' by (simp add: no_adj_free_Cons)
      qed
      have exa: "extent_end s' a = extent_end s a" using ma b by (simp add: extent_end_def size_at_def)
      have fec: "free_extents_clear s' (a # as') ys"
        unfolding free_extents_clear_def
      proof (intro ballI impI conjI)
        fix x assume x: "x \<in> set (a # as')" "is_free (mem s') x"
        show "extent_end s' x \<le> 2 ^ 64"
        proof (cases "x = a")
          case True
          then show ?thesis using exa less.prems(3) as x r(9) by (auto simp: free_extents_clear_def)
        next
          case False
          then show ?thesis using r(6) x by (auto simp: free_extents_clear_def)
        qed
        fix d assume d: "d \<in> set (a # as') \<union> set ys"
        show "\<not> (unat x < unat d \<and> unat d < extent_end s' x)"
        proof (cases "x = a")
          case True
          have "d \<in> set as \<union> set ys" using d r(5) as Cons by auto
          then show ?thesis using True exa less.prems(3) as x r(9)
            by (auto simp: free_extents_clear_def)
        next
          case False
          then have "x \<in> set as'" using x by simp
          moreover have "d \<in> set as' \<union> set (a # ys)" using d by auto
          ultimately show ?thesis using r(6) x(2) unfolding free_extents_clear_def by blast
        qed
      qed
      have "merge_sweep p s = returns s'" using step r(1) by simp
      moreover have "set (a # as') \<subseteq> set as" using r(5) as Cons by auto
      moreover have "\<forall>x. x \<notin> set as \<longrightarrow> mem s' x = mem s x" using r(8) as Cons by auto
      ultimately show ?thesis using r(2,9) ch naf fec
        by (intro exI [of _ s'] exI [of _ "a # as'"]) simp
    qed
  qed
qed

lemma chain_split_insert:
  assumes "chain m p (xs @ bf # ys)" and "m bf = Some b" and "nb \<notin> set (xs @ bf # ys)" and "nb \<noteq> 0"
    and "next_m b' = nb" and "next_m n' = next_m b"
  shows "chain (m(bf \<mapsto> b', nb \<mapsto> n')) p (xs @ bf # nb # ys)"
proof -
  have d: "distinct (xs @ bf # ys)" using assms(1) by (rule chain_distinct)
  then have bx: "bf \<notin> set xs" and "bf \<notin> set ys" by auto
  from assms(3) have nx: "nb \<notin> set xs" and ny: "nb \<notin> set ys" and nbf: "nb \<noteq> bf" by auto
  from assms(1) have p1: "path m p xs bf" and p2: "path m bf (bf # ys) 0"
    by (auto simp: chain_def path_append path_Cons simp del: path.simps(2))
  from p2 assms(2) have bf0: "bf \<noteq> 0" and p3: "path m (next_m b) ys 0"
    by (auto simp: path_Cons simp del: path.simps(2))
  let ?m = "m(bf \<mapsto> b', nb \<mapsto> n')"
  have "path ?m p xs bf" using p1 bx nx by (simp add: path_upd_notin)
  moreover have "path ?m (next_m b) ys 0" using p3 \<open>bf \<notin> set ys\<close> ny by (simp add: path_upd_notin)
  then have "path ?m bf (bf # nb # ys) 0"
    using bf0 assms(4,5,6) nbf by (simp add: path_Cons del: path.simps(2))
  ultimately show ?thesis
    unfolding chain_def by (auto simp: path_append simp del: path.simps(2))
qed

lemma no_adj_free_mono:
  "no_adj_free m as \<Longrightarrow> (\<forall>x\<in>set as. is_free m' x \<longrightarrow> is_free m x) \<Longrightarrow> no_adj_free m' as"
  by (induction m as rule: no_adj_free.induct) auto

lemma no_adj_free_snoc:
  "no_adj_free m as \<Longrightarrow> \<not> is_free m' nb \<Longrightarrow> (\<forall>x\<in>set as. is_free m' x \<longrightarrow> is_free m x)
     \<Longrightarrow> no_adj_free m' (as @ [nb])"
  by (induction m as rule: no_adj_free.induct) auto

lemma no_adj_free_insert:
  assumes "no_adj_free m (xs @ bf # ys)" and "is_free m bf" and "\<not> is_free m' bf"
    and "\<forall>x\<in>set (xs @ ys). is_free m' x \<longrightarrow> is_free m x"
  shows "no_adj_free m' (xs @ bf # nb # ys)"
  using assms
proof (induction xs)
  case Nil
  then have "ys \<noteq> [] \<longrightarrow> \<not> is_free m (hd ys)" by (simp add: no_adj_free_Cons)
  then have "ys \<noteq> [] \<longrightarrow> \<not> is_free m' (hd ys)" using Nil.prems(4) by (cases ys) auto
  moreover have "no_adj_free m' ys"
    using Nil.prems(1,4) by (auto simp: no_adj_free_Cons intro: no_adj_free_mono)
  ultimately show ?case using Nil.prems(3) by (simp add: no_adj_free_Cons)
next
  case (Cons x xs)
  then have ih: "no_adj_free m' (xs @ bf # nb # ys)" by (simp add: no_adj_free_Cons)
  show ?case
  proof (cases xs)
    case Nil
    then show ?thesis using ih Cons.prems(3) by (simp add: no_adj_free_Cons)
  next
    case (Cons z zs)
    have "\<not> (is_free m x \<and> is_free m z)" using Cons.prems(1) Cons \<open>no_adj_free m ((x # xs) @ bf # ys)\<close>
      by (simp add: no_adj_free_Cons)
    then have "\<not> (is_free m' x \<and> is_free m' z)" using Cons.prems(4) Cons \<open>\<forall>x\<in>set ((x # xs) @ ys). is_free m' x \<longrightarrow> is_free m x\<close> by auto
    then show ?thesis using ih Cons by (simp add: no_adj_free_Cons)
  qed
qed

lemma extendHeap_normal:
  assumes "chain (mem s) headp as" and "as \<noteq> []" and "mem s (last as) = Some tb"
    and "status_m tb = STATUS_FREE \<longrightarrow>
           0 \<le> sint (sz - ALIGN sizeof_block_meta - size_m tb)
           \<and> uint (brk s) + sint (sz - ALIGN sizeof_block_meta - size_m tb) \<le> uint (brk_max s)
           \<and> brk s \<noteq> - 1"
  shows "extendHeap headp sz 0 s =
     (if status_m tb = STATUS_FREE then
        returns (last as,
          s\<lparr>trace := trace s @ [SBRK (sz - ALIGN sizeof_block_meta - size_m tb)],
            brk := brk s + (sz - ALIGN sizeof_block_meta - size_m tb),
            mem := (mem s)(last as \<mapsto> tb\<lparr>size_m := sz - ALIGN sizeof_block_meta,
                                           status_m := STATUS_ALLOC, next_m := 0\<rparr>)\<rparr>)
      else returns (0, s))"
proof -
  have w: "walk_to_last s headp = returns (last as)" using assms(1,2) by (rule walk_to_last_chain)
  have t0: "last as \<noteq> 0" using chain_nonzero [OF assms(1)] assms(2) by (metis last_in_set)
  have lt: "load s (last as) = returns tb" using t0 assms(3) by (simp add: load_Some)
  show ?thesis
  proof (cases "status_m tb = STATUS_FREE")
    case True
    with assms(4) have ok: "0 \<le> sint (sz - ALIGN sizeof_block_meta - size_m tb)"
        "uint (brk s) + sint (sz - ALIGN sizeof_block_meta - size_m tb) \<le> uint (brk_max s)"
        "brk s \<noteq> - 1" by auto
    show ?thesis using w lt True t0 assms(3) sbrk_ok(1) [OF ok(1,2)] ok(3)
      by (simp add: extendHeap_def Let_def then_do_returns store_def load_def)
  next
    case False
    then show ?thesis using w lt by (simp add: extendHeap_def Let_def then_do_returns)
  qed
qed

lemma sint_small:
  fixes n :: "64 word"
  assumes "uint n < 2 ^ 63"
  shows "sint n = uint n"
proof -
  have "(- (2 ^ 63) :: int) \<le> 0" by simp
  also have "0 \<le> uint n" by simp
  finally have "- (2 ^ 63) \<le> uint n" .
  then have "signed_take_bit 63 (uint n) = uint n"
    using assms by (rule signed_take_bit_int_eq_self)
  then show ?thesis by (simp add: sint_uint)
qed

lemma uint_le_unat: "unat (x :: 64 word) \<le> n \<Longrightarrow> uint x \<le> int n"
  by (simp only: uint_nat of_nat_le_iff)

lemma ALIGN_le:
  assumes "sz \<le> 131032"
  shows "unat (ALIGN sz) \<le> unat sz + 7"
proof -
  have s: "unat sz \<le> 131032" using assms by (simp add: word_le_nat_alt)
  have "unat sz + unat (7 :: 64 word) < 2 ^ LENGTH(64)" using s by simp
  then have 1: "unat (sz + 7) = unat sz + 7" by (simp add: unat_add_lem [THEN iffD1])
  have "(sz + 7) AND NOT 7 \<le> sz + 7" by (rule word_and_le2)
  then have "unat ((sz + 7) AND NOT 7) \<le> unat (sz + 7)" by (simp add: word_le_nat_alt)
  with 1 show ?thesis by (simp add: ALIGN_def ALIGNMENT_def)
qed

lemma chain_upd_same_next:
  "m a = Some b \<Longrightarrow> next_m b' = next_m b \<Longrightarrow> chain (m(a \<mapsto> b')) p as = chain m p as"
  unfolding chain_def
  by (induction as arbitrary: p) (auto simp: path_Cons simp del: path.simps(2))

lemma searchAndSplit_chain:
  assumes "chain (mem s) headp as" and "sz \<noteq> 0"
    and "\<forall>a\<in>set as. fits s (sz - ALIGN sizeof_block_meta) a \<and> ALIGN 1 + sz \<le> size_at s a
           \<longrightarrow> a + sz \<noteq> 0"
  shows "\<exists>bestFit s'. searchAndSplit headp sz s = returns (bestFit, s') \<and>
     (if \<forall>a\<in>set as. \<not> fits s (sz - ALIGN sizeof_block_meta) a then bestFit = 0 \<and> s' = s
      else bestFit \<in> set as \<and> fits s (sz - ALIGN sizeof_block_meta) bestFit
         \<and> (\<forall>a\<in>set as. fits s (sz - ALIGN sizeof_block_meta) a
               \<longrightarrow> size_at s bestFit \<le> size_at s a)
         \<and> (\<forall>a\<in>set (takeWhile (\<lambda>x. x \<noteq> bestFit) as). fits s (sz - ALIGN sizeof_block_meta) a
               \<longrightarrow> size_at s bestFit < size_at s a)
         \<and> (\<exists>b. mem s bestFit = Some b \<and>
              (if ALIGN 1 + sz \<le> size_m b then
                 s' = s\<lparr>mem := (mem s)
                        (bestFit \<mapsto> b\<lparr>status_m := STATUS_ALLOC,
                                      size_m := sz - ALIGN sizeof_block_meta,
                                      next_m := bestFit + sz\<rparr>,
                         bestFit + sz \<mapsto> \<lparr>size_m = size_m b - sz, status_m = STATUS_FREE,
                                         prev_m = bestFit, next_m = next_m b\<rparr>)\<rparr>
               else s' = s\<lparr>mem := (mem s)(bestFit \<mapsto> b\<lparr>status_m := STATUS_ALLOC\<rparr>)\<rparr>)))"
proof -
  let ?req = "sz - ALIGN sizeof_block_meta"
  from best_fit_chain [OF assms(1), of 0 ?req] obtain r where
    r: "best_fit s ?req headp 0 = returns r"
       "(r = 0 \<and> (\<forall>a\<in>set as. fits s ?req a \<longrightarrow> (0::addr) \<noteq> 0 \<and> size_at s 0 \<le> size_at s a))
            \<or> (r \<in> set as \<and> fits s ?req r \<and> ((0::addr) \<noteq> 0 \<longrightarrow> size_at s r < size_at s 0)
                \<and> (\<forall>a\<in>set as. fits s ?req a \<longrightarrow> size_at s r \<le> size_at s a)
                \<and> (\<forall>a\<in>set (takeWhile (\<lambda>x. x \<noteq> r) as). fits s ?req a \<longrightarrow> size_at s r < size_at s a))"
    by blast
  have zero: "0 \<notin> set as" using assms(1) by (rule chain_nonzero)
  from r(2) show ?thesis
  proof
    assume h: "r = 0 \<and> (\<forall>a\<in>set as. fits s ?req a \<longrightarrow> (0::addr) \<noteq> 0 \<and> size_at s 0 \<le> size_at s a)"
    then have none: "\<forall>a\<in>set as. \<not> fits s ?req a" by auto
    have "searchAndSplit headp sz s = returns (0, s)"
      using r(1) h by (simp add: searchAndSplit_def Let_def then_do_returns)
    with none show ?thesis by auto
  next
    assume h: "r \<in> set as \<and> fits s ?req r \<and> ((0::addr) \<noteq> 0 \<longrightarrow> size_at s r < size_at s 0)
                \<and> (\<forall>a\<in>set as. fits s ?req a \<longrightarrow> size_at s r \<le> size_at s a)
                \<and> (\<forall>a\<in>set (takeWhile (\<lambda>x. x \<noteq> r) as). fits s ?req a \<longrightarrow> size_at s r < size_at s a)"
    then have some: "\<not> (\<forall>a\<in>set as. \<not> fits s ?req a)" by auto
    from h zero have r0: "r \<noteq> 0" by auto
    from h obtain b where b: "mem s r = Some b" by (auto simp: fits_def split: option.splits)
    show ?thesis
    proof (cases "ALIGN 1 + sz \<le> size_m b")
      case True
      then have "ALIGN 1 + sz \<le> size_at s r" using b by (simp add: size_at_def)
      with h assms(3) have nb0: "r + sz \<noteq> 0" by blast
      have "searchAndSplit headp sz s = returns (r, s\<lparr>mem := (mem s)
              (r \<mapsto> b\<lparr>status_m := STATUS_ALLOC, size_m := ?req, next_m := r + sz\<rparr>,
               r + sz \<mapsto> \<lparr>size_m = size_m b - sz, status_m = STATUS_FREE,
                           prev_m = r, next_m = next_m b\<rparr>)\<rparr>)"
        using r(1) r0 split_state [OF b r0 nb0 assms(2) True, of ?req]
        by (simp add: searchAndSplit_def Let_def then_do_returns)
      with h some b True show ?thesis by auto
    next
      case False
      have "searchAndSplit headp sz s
              = returns (r, s\<lparr>mem := (mem s)(r \<mapsto> b\<lparr>status_m := STATUS_ALLOC\<rparr>)\<rparr>)"
        using r(1) r0 b False
        by (simp add: searchAndSplit_def Let_def then_do_returns store_Some load_Some)
      with h some b False show ?thesis by auto
    qed
  qed
qed

lemma searchAndSplit_none:
  assumes "chain (mem s) headp as" and "sz \<noteq> 0"
    and "\<forall>a\<in>set as. \<not> fits s (sz - ALIGN sizeof_block_meta) a"
  shows "searchAndSplit headp sz s = returns (0, s)"
  using searchAndSplit_chain [OF assms(1,2)] assms(3) by auto

lemma searchAndSplit_some:
  assumes "chain (mem s) headp as" and "sz \<noteq> 0"
    and "\<forall>a\<in>set as. fits s (sz - ALIGN sizeof_block_meta) a \<and> ALIGN 1 + sz \<le> size_at s a
           \<longrightarrow> a + sz \<noteq> 0"
    and "\<not> (\<forall>a\<in>set as. \<not> fits s (sz - ALIGN sizeof_block_meta) a)"
  shows "\<exists>bf b. bf \<in> set as \<and> fits s (sz - ALIGN sizeof_block_meta) bf \<and> mem s bf = Some b
     \<and> searchAndSplit headp sz s = returns (bf,
          if ALIGN 1 + sz \<le> size_m b then
            s\<lparr>mem := (mem s)
               (bf \<mapsto> b\<lparr>status_m := STATUS_ALLOC, size_m := sz - ALIGN sizeof_block_meta,
                          next_m := bf + sz\<rparr>,
                bf + sz \<mapsto> \<lparr>size_m = size_m b - sz, status_m = STATUS_FREE,
                             prev_m = bf, next_m = next_m b\<rparr>)\<rparr>
          else s\<lparr>mem := (mem s)(bf \<mapsto> b\<lparr>status_m := STATUS_ALLOC\<rparr>)\<rparr>)"
proof -
  from searchAndSplit_chain [OF assms(1,2,3)] assms(4)
  obtain bf s' b where "searchAndSplit headp sz s = returns (bf, s')" "bf \<in> set as"
      "fits s (sz - ALIGN sizeof_block_meta) bf" "mem s bf = Some b"
      "if ALIGN 1 + sz \<le> size_m b then
                 s' = s\<lparr>mem := (mem s)
                        (bf \<mapsto> b\<lparr>status_m := STATUS_ALLOC,
                                      size_m := sz - ALIGN sizeof_block_meta,
                                      next_m := bf + sz\<rparr>,
                         bf + sz \<mapsto> \<lparr>size_m = size_m b - sz, status_m = STATUS_FREE,
                                         prev_m = bf, next_m = next_m b\<rparr>)\<rparr>
               else s' = s\<lparr>mem := (mem s)(bf \<mapsto> b\<lparr>status_m := STATUS_ALLOC\<rparr>)\<rparr>"
    by (auto split: if_splits)
  then show ?thesis by (intro exI [of _ bf] exI [of _ b]) (auto split: if_splits)
qed

text \<open>\<open>os_free\<close> of a mapped block whose \<open>prev\<close> is its predecessor in the registry:
  the block leaves the registry and its \<open>size\<close> bytes are unmapped.\<close>

lemma path_next_cong:
  "(\<forall>a\<in>set as. map_option next_m (m1 a) = map_option next_m (m2 a))
     \<Longrightarrow> path m1 p as q = path m2 p as q"
proof (induction as arbitrary: p)
  case Nil
  then show ?case by simp
next
  case (Cons a as)
  then have ih: "\<And>p. path m1 p as q = path m2 p as q" by simp
  from Cons.prems have "map_option next_m (m1 a) = map_option next_m (m2 a)" by simp
  then show ?case using ih by (cases "m1 a"; cases "m2 a") auto
qed

lemma mem_head_update_commute:
  "s\<lparr>mem := M, head := h\<rparr> = s\<lparr>head := h, mem := M\<rparr>"
  by (cases s) simp

lemma os_free_mapped_intact:
  assumes reg: "chain (mem s) (head s) (xs @ m # ys)"
    and b: "mem s m = Some b" and st: "status_m b = STATUS_MAPPED" and len: "size_m b \<noteq> 0"
    and ptr: "m + sizeof_block_meta \<noteq> 0"
    and prev: "prev_m b = (if xs = [] then 0 else last xs)"
    and out: "\<forall>a\<in>set (xs @ ys). \<not> (a - m < size_m b)"
  shows "\<exists>s'. os_free (m + sizeof_block_meta) s = returns s'
           \<and> trace s' = trace s @ [MUNMAP m (size_m b)]
           \<and> chain (mem s') (head s') (xs @ ys) \<and> mem s' m = None"
proof -
  have d: "distinct (xs @ m # ys)" using reg by (rule chain_distinct)
  have z: "0 \<notin> set (xs @ m # ys)" using reg by (rule chain_nonzero)
  have m0: "m \<noteq> 0" using z by auto
  from reg have p1: "path (mem s) (head s) xs m" and p2: "path (mem s) (next_m b) ys 0"
    using b by (auto simp: chain_def path_append path_Cons simp del: path.simps(2))
  have h0: "head s \<noteq> 0" using reg z by (cases xs) (auto simp: chain_Cons)
  have hm: "(head s = m) = (xs = [])"
  proof (cases xs)
    case Nil then show ?thesis using p1 by simp
  next
    case (Cons x xs') then show ?thesis using p1 d by (auto simp: path_Cons simp del: path.simps(2))
  qed
  have nx: "next_m b = (if ys = [] then 0 else hd ys)"
    using p2 by (cases ys) (auto simp: path_Cons simp del: path.simps(2))
  let ?b' = "b\<lparr>status_m := STATUS_FREE\<rparr>"
  let ?s2 = "s\<lparr>mem := (mem s)(m \<mapsto> ?b')\<rparr>"
  \<comment> \<open>the successor, when there is one\<close>
  have ynode: "ys \<noteq> [] \<Longrightarrow> hd ys \<noteq> 0 \<and> hd ys \<noteq> m \<and> (\<exists>yb. mem s (hd ys) = Some yb)"
    using p2 d z by (cases ys) (auto simp: path_Cons simp del: path.simps(2))
  \<comment> \<open>the predecessor, when there is one\<close>
  have xnode: "xs \<noteq> [] \<Longrightarrow> last xs \<noteq> 0 \<and> last xs \<noteq> m \<and> last xs \<notin> set ys
      \<and> last xs \<notin> set (butlast xs)
      \<and> (\<exists>lb. mem s (last xs) = Some lb \<and> next_m lb = m) \<and> path (mem s) (head s) (butlast xs) (last xs)"
  proof -
    assume ne: "xs \<noteq> []"
    then have xs: "xs = butlast xs @ [last xs]" by simp
    have lin: "last xs \<in> set xs" using ne by simp
    have "path (mem s) (head s) (butlast xs @ [last xs]) m" using p1 xs by simp
    then have "path (mem s) (head s) (butlast xs) (last xs)"
      and "\<exists>lb. mem s (last xs) = Some lb \<and> next_m lb = m"
      by (auto simp: path_append path_Cons simp del: path.simps(2))
    moreover have "last xs \<notin> set (butlast xs)" using d xs
      by (metis distinct_append distinct.simps(2) distinct_butlast not_distinct_conv_prefix append.assoc append_Cons append_Nil in_set_conv_decomp)
    ultimately show ?thesis using lin d z by auto
  qed
  \<comment> \<open>the state deleteBlock leaves\<close>
  define M1 where "M1 = (if ys = [] then (mem s)(m \<mapsto> ?b')
      else (mem s)(m \<mapsto> ?b', hd ys \<mapsto> (the (mem s (hd ys)))\<lparr>prev_m := prev_m b\<rparr>))"
  define M2 where "M2 = (if xs = [] then M1
      else M1(last xs \<mapsto> (the (M1 (last xs)))\<lparr>next_m := next_m b\<rparr>))"
  define h' where "h' = (if xs = [] then next_m b else head s)"
  have M1m: "M1 m = Some ?b'" using ynode by (auto simp: M1_def)
  have M2m: "M2 m = Some ?b'" using M1m xnode by (auto simp: M2_def)
  have del: "deleteBlock m ?s2 = returns (s\<lparr>head := h', mem := M2\<rparr>)"
  proof -
    have l2: "load ?s2 m = returns ?b'" using m0 by (simp add: load_def returns_def)
    show ?thesis
    proof (cases "xs = []")
      case True
      with hm prev have hd: "head s = m" and pv: "prev_m b = 0" by simp_all
      show ?thesis
      proof (cases "ys = []")
        case True
        then show ?thesis using hd pv nx m0 h0 \<open>xs = []\<close>
          by (simp add: deleteBlock_def load_def store_def then_do_returns M1_def M2_def h'_def
                mem_head_update_commute)
      next
        case False
        with ynode obtain yb where yb: "hd ys \<noteq> 0" "hd ys \<noteq> m" "mem s (hd ys) = Some yb" by blast
        then show ?thesis using hd pv nx m0 h0 \<open>xs = []\<close> False
          by (simp add: deleteBlock_def load_def store_def then_do_returns M1_def M2_def h'_def
                mem_head_update_commute)
      qed
    next
      case False
      with hm prev have hd: "head s \<noteq> m" and pv: "prev_m b = last xs" by simp_all
      from xnode False obtain lb where lb: "last xs \<noteq> 0" "last xs \<noteq> m" "last xs \<notin> set ys"
          "mem s (last xs) = Some lb" by blast
      show ?thesis
      proof (cases "ys = []")
        case True
        then show ?thesis using hd pv nx m0 h0 False lb
          by (simp add: deleteBlock_def load_def store_def then_do_returns M1_def M2_def h'_def
                mem_head_update_commute)
      next
        case ys: False
        with ynode obtain yb where yb: "hd ys \<noteq> 0" "hd ys \<noteq> m" "mem s (hd ys) = Some yb" by blast
        have "hd ys \<noteq> last xs" using lb(3) ys by (cases ys) auto
        then show ?thesis using hd pv nx m0 h0 False lb ys yb
          by (simp add: deleteBlock_def load_def store_def then_do_returns M1_def M2_def h'_def
                mem_head_update_commute)
      qed
    qed
  qed
  \<comment> \<open>the whole call\<close>
  let ?s3 = "s\<lparr>head := h', mem := M2\<rparr>"
  let ?s4 = "?s3\<lparr>trace := trace s @ [MUNMAP m (size_m b)],
                 mem := (\<lambda>a. if a - m < size_m b then None else M2 a)\<rparr>"
  have fr: "os_free (m + sizeof_block_meta) s = returns ?s4"
    using ptr m0 b st len del M2m
    by (simp add: os_free_def Let_def load_def store_def then_do_returns munmap_def
          cong del: if_weak_cong)
  \<comment> \<open>the registry that is left\<close>
  have same_ys: "\<forall>a\<in>set ys. map_option next_m (mem ?s4 a) = map_option next_m (mem s a)"
  proof
    fix a assume a: "a \<in> set ys"
    then have "a \<noteq> m" using d by auto
    moreover have "xs \<noteq> [] \<longrightarrow> a \<noteq> last xs" using a xnode by auto
    moreover have "\<not> (a - m < size_m b)" using a out by auto
    moreover from a p2 obtain ab where "mem s a = Some ab"
      using chain_mem [of "mem s" "next_m b" ys a] by (auto simp: chain_def)
    ultimately show "map_option next_m (mem ?s4 a) = map_option next_m (mem s a)"
      by (auto simp: M2_def M1_def)
  qed
  have py: "path (mem ?s4) (next_m b) ys 0"
    using path_next_cong [OF same_ys] p2 by simp
  have px: "path (mem ?s4) h' xs (next_m b)"
  proof (cases "xs = []")
    case True
    then show ?thesis by (simp add: h'_def)
  next
    case False
    from xnode False obtain lb where lb: "last xs \<noteq> 0" "last xs \<noteq> m" "last xs \<notin> set ys"
        "last xs \<notin> set (butlast xs)" "mem s (last xs) = Some lb"
        "path (mem s) (head s) (butlast xs) (last xs)" by blast
    have same_bx: "\<forall>a\<in>set (butlast xs). map_option next_m (mem ?s4 a) = map_option next_m (mem s a)"
    proof
      fix a assume a: "a \<in> set (butlast xs)"
      then have ax: "a \<in> set xs" by (rule in_set_butlastD)
      then have "a \<noteq> m" using d by auto
      moreover have "a \<noteq> last xs" using a lb(4) by auto
      moreover have "\<not> (a - m < size_m b)" using ax out by auto
      moreover have "ys \<noteq> [] \<longrightarrow> a \<noteq> hd ys" using ax d by (cases ys) auto
      ultimately show "map_option next_m (mem ?s4 a) = map_option next_m (mem s a)"
        by (auto simp: M2_def M1_def)
    qed
    have 1: "path (mem ?s4) (head s) (butlast xs) (last xs)"
      using path_next_cong [OF same_bx] lb(6) by simp
    have lout: "\<not> (last xs - m < size_m b)" using out False by auto
    have "ys \<noteq> [] \<longrightarrow> last xs \<noteq> hd ys" using lb(3) by (cases ys) auto
    then have "\<exists>lb'. M2 (last xs) = Some lb' \<and> next_m lb' = next_m b"
      using False lb by (auto simp: M2_def M1_def)
    then have 2: "path (mem ?s4) (last xs) [last xs] (next_m b)"
      using lb(1) lout by (auto simp: path_Cons simp del: path.simps(2))
    have "path (mem ?s4) (head s) (butlast xs @ [last xs]) (next_m b)"
      using 1 2 by (auto simp add: path_append simp del: path.simps(2))
    then show ?thesis using False by (simp add: h'_def)
  qed
  have "chain (mem ?s4) (head ?s4) (xs @ ys)"
    unfolding chain_def using px py by (auto simp add: path_append simp del: path.simps(2))
  moreover have "mem ?s4 m = None" using len by (simp add: word_neq_0_conv)
  moreover have "trace ?s4 = trace s @ [MUNMAP m (size_m b)]" by simp
  ultimately show ?thesis using fr by blast
qed

text \<open>The definitions a concrete run unfolds.\<close>

lemmas eval_defs = proc0_def fresh_def os_malloc_def os_free_def os_calloc_def os_realloc_def
    then_do_def returns_def raise_def allocateSbrk_def allocateMmap_def sbrk_def mmap_def munmap_def
    MMAP_THRESHOLD_def ALIGN_def ALIGNMENT_def sizeof_block_meta_def store_def load_def as_block_def
    insertInList_def deleteBlock_def blank_def memset_def memcpy_def
    tryAll_def mergeFreeBlocks_def searchAndSplit_def extendHeap_def splitRealloc_def extendRealloc_def Let_def
    merge_sweep.simps best_fit.simps walk_to_last.simps find_block.simps
    pointers_def syscalls_def header_at_def registry_head_def mode_flags_def payload_bytes_def
    registry_is_def prev_links_ok_def chain_def
    ptr_at_def garbage0_def freed0_def two_free0_def

text \<open>The states \<open>freed0\<close> and \<open>two_free0\<close> are reached from \<open>proc0\<close> through the
  public interface.\<close>

lemma freed0_reached: "run [Malloc 100, Free 0] [] proc0 = returns ([0x10020], freed0)"
  by (simp add: eval_defs)

lemma two_free0_reached:
  "run [Malloc 100, Malloc 100, Free 0, Free 1] [] proc0 = returns ([0x10020, 0x30020], two_free0)"
  by (simp add: eval_defs)

text \<open>The states \<open>live0\<close>, \<open>mapped0\<close> and \<open>interleaved0\<close> are reached from
  \<open>proc0\<close> through the public interface.\<close>

lemma live0_reached: "run [Malloc 100] [] proc0 = returns ([0x10020], live0)"
  by (simp add: eval_defs live0_def)

lemma mapped0_reached: "run [Malloc 204800] [] proc0 = returns ([0x7f0000000020], mapped0)"
  by (simp add: eval_defs mapped0_def)

lemma interleaved0_reached:
  "run interleaved [] proc0
     = returns ([0x10020, 0x30020, 0x30238, 0x302c0, 0x30410, 0x30498, 0x305e8], interleaved0)"
  by (simp add: eval_defs interleaved_def interleaved0_def) (simp add: fun_eq_iff)

text \<open>\<open>os_free\<close> of an arena block: an ALLOC block becomes FREE, a FREE block is left
  as it is.\<close>

lemma load_returnsD: "load s p = returns b \<Longrightarrow> p \<noteq> 0 \<and> mem s p = Some b"
  by (auto simp: load_def returns_def raise_def split: if_splits option.splits)

lemma os_free_alloc:
  assumes "ptr \<noteq> 0" and "load s (ptr - sizeof_block_meta) = returns b" and "status_m b = STATUS_ALLOC"
  shows "os_free ptr s = returns (s\<lparr>mem := (mem s)(ptr - sizeof_block_meta \<mapsto> b\<lparr>status_m := STATUS_FREE\<rparr>)\<rparr>)"
  using assms(1,3) load_returnsD [OF assms(2)]
  by (simp add: os_free_def Let_def load_def store_def then_do_returns)

lemma os_free_free:
  assumes "load s (ptr - sizeof_block_meta) = returns b" and "status_m b = STATUS_FREE"
  shows "os_free ptr s = returns s"
  using assms(2) load_returnsD [OF assms(1)]
  by (simp add: os_free_def Let_def load_def store_def then_do_returns)



section \<open>Claims\<close>

subsection \<open>C1: two successive os_malloc(100) on a fresh process\<close>

text \<open>Claim C1 says that the second of two \<open>os_malloc(100)\<close> calls on a fresh process
  reuses the first arena block by a split, with one SBRK in all. On the process
  \<open>proc0\<close> the code issues two SBRK calls, and the second pointer is
  \<open>base + 128 * 1024 + 32\<close>, not \<open>base + 32 + align(100) + 32\<close>.\<close>

theorem C1_two_mallocs_counterexample:
  "pointers (run [Malloc 100, Malloc 100] [] proc0) = returns [0x10000 + 32, 0x10000 + 128 * 1024 + 32]
   \<and> syscalls (run [Malloc 100, Malloc 100] [] proc0) = returns [SBRK (128 * 1024), SBRK 136]
   \<and> (0x10000 + 128 * 1024 + 32 :: addr) \<noteq> 0x10000 + 32 + ALIGN 100 + 32"
  by (simp add: eval_defs)

text \<open>Claim C1 as amended: on a fresh process two successive \<open>os_malloc(100)\<close> issue
  two SBRK calls, of \<open>128 * 1024\<close> and of \<open>align(100) + H\<close> bytes. The first call hands
  out the whole slab as one ALLOC block, so the second finds no FREE block to split and
  takes a new arena block at the old break: its pointer is \<open>base + 128 * 1024 + H\<close>.\<close>

theorem C1_two_mallocs_two_sbrk:
  assumes "base \<noteq> 0" and "uint base + 128 * 1024 + 136 \<le> uint lim"
  shows "pointers (run [Malloc 100, Malloc 100] [] (fresh base lim mp pg))
           = returns [base + sizeof_block_meta, base + 128 * 1024 + sizeof_block_meta]
       \<and> syscalls (run [Malloc 100, Malloc 100] [] (fresh base lim mp pg))
           = returns [SBRK (128 * 1024), SBRK (ALIGN 100 + ALIGN sizeof_block_meta)]"
proof -
  have lim: "uint lim < 2 ^ 64" using uint_lt2p [of lim] by simp
  have m1: "uint (- 1 :: 64 word) = 2 ^ 64 - 1"
    by (simp add: unsigned_minus_1_eq_mask mask_eq_exp_minus_1)
  have b1: "base \<noteq> - 1" using assms(2) lim m1 by auto
  have "uint base + uint (131072 :: 64 word) < 2 ^ LENGTH(64)" using assms(2) lim by simp
  then have "uint (base + 131072) = uint base + uint (131072 :: 64 word)"
    by (simp only: uint_add_lem)
  then have u: "uint (base + 131072) = uint base + 131072" by simp
  have b2: "base + 131072 \<noteq> - 1"
  proof
    assume a: "base + 131072 = - 1"
    have "uint (base + 131072) = uint (- 1 :: 64 word)" by (simp only: a)
    with m1 u assms(2) lim show False by simp
  qed
  have b3: "base + 131072 \<noteq> 0"
  proof
    assume a: "base + 131072 = 0"
    have "uint (base + 131072) = uint (0 :: 64 word)" by (simp only: a)
    with u have "uint base + 131072 = 0" by simp
    moreover have "0 \<le> uint base" by simp
    ultimately show False by linarith
  qed
  have ge: "0 \<le> uint base" by simp
  have n1: "\<not> uint base + 131072 < 0" "\<not> uint base + 131208 < 0" using ge by linarith+
  have n2: "\<not> uint lim < uint base + 131072" "\<not> uint lim < uint base + 131208"
    using assms(2) by linarith+
  show ?thesis
    using assms(1) b1 b2 b3 u n1 n2
    by (simp add: eval_defs)
qed

text \<open>Witness for C1 as amended, on \<open>fresh 0x10000 0x10000000 0x7f0000000000 4096\<close>.\<close>

theorem C1_two_mallocs_two_sbrk_witness:
  "(0x10000 :: addr) \<noteq> 0 \<and> uint (0x10000 :: addr) + 128 * 1024 + 136 \<le> uint (0x10000000 :: addr)
   \<and> pointers (run [Malloc 100, Malloc 100] [] (fresh 0x10000 0x10000000 0x7f0000000000 4096))
           = returns [0x10000 + sizeof_block_meta, 0x10000 + 128 * 1024 + sizeof_block_meta]
   \<and> syscalls (run [Malloc 100, Malloc 100] [] (fresh 0x10000 0x10000000 0x7f0000000000 4096))
           = returns [SBRK (128 * 1024), SBRK (ALIGN 100 + ALIGN sizeof_block_meta)]"
proof -
  have h: "(0x10000 :: addr) \<noteq> 0" "uint (0x10000 :: addr) + 128 * 1024 + 136 \<le> uint (0x10000000 :: addr)"
    by simp_all
  from C1_two_mallocs_two_sbrk [OF h, of "0x7f0000000000" 4096] h show ?thesis by blast
qed

subsection \<open>C2: the first arena allocation\<close>

text \<open>Claim C2: while the heap is not yet preallocated, an \<open>os_malloc\<close> of a
  non-zero size whose total \<open>align(size) + H\<close> is below MMAP_THRESHOLD performs exactly one
  SBRK, of \<open>128 * 1024\<close> bytes, and returns the whole slab as one ALLOC block of size
  \<open>128 * 1024 - H\<close> appended to the registry, whatever the requested size. (A request
  of size 0 returns NULL at the guard that precedes this step.)\<close>

theorem C2_first_arena_malloc:
  assumes "preallocHeap s = 0" and "callocType s = 0"
    and "sz \<noteq> 0" and "ALIGN sz + ALIGN sizeof_block_meta < MMAP_THRESHOLD"
    and "chain (mem s) (head s) as" and "brk s \<notin> set as" and "brk s \<noteq> 0"
    and "uint (brk s) + 128 * 1024 \<le> uint (brk_max s)"
  shows "\<exists>s'. os_malloc sz s = returns (brk s + sizeof_block_meta, s')
           \<and> trace s' = trace s @ [SBRK (128 * 1024)]
           \<and> (\<exists>b. mem s' (brk s) = Some b \<and> size_m b = 128 * 1024 - ALIGN sizeof_block_meta
                  \<and> status_m b = STATUS_ALLOC)
           \<and> chain (mem s') (head s') (as @ [brk s])
           \<and> preallocHeap s' = 1"
proof -
  let ?s1 = "s\<lparr>preallocHeap := 1\<rparr>"
  have m: "os_malloc sz s = then_do (allocateSbrk MMAP_THRESHOLD ?s1)
             (\<lambda>(memBlock, s1). returns (memBlock + sizeof_block_meta, s1))"
    using assms(1-4) by (simp add: os_malloc_def Let_def linorder_not_le [symmetric])
  have n: "MMAP_THRESHOLD = 128 * 1024" "MMAP_THRESHOLD \<noteq> 0" "sint MMAP_THRESHOLD = 128 * 1024"
    by (simp_all add: MMAP_THRESHOLD_def)
  have "\<exists>s'. allocateSbrk MMAP_THRESHOLD ?s1 = returns (brk ?s1, s') \<and>
          chain (mem s') (head s') (as @ [brk ?s1]) \<and>
          s' = ?s1\<lparr>head := head s', mem := mem s', brk := brk ?s1 + MMAP_THRESHOLD,
                   trace := trace ?s1 @ [SBRK MMAP_THRESHOLD]\<rparr> \<and>
          (\<forall>x. x \<notin> set as \<longrightarrow> x \<noteq> brk ?s1 \<longrightarrow> mem s' x = mem ?s1 x) \<and>
          (\<forall>x b. x \<noteq> brk ?s1 \<longrightarrow> mem ?s1 x = Some b \<longrightarrow>
             (\<exists>b'. mem s' x = Some b' \<and> size_m b' = size_m b \<and> status_m b' = status_m b)) \<and>
          (\<forall>x\<in>set as. \<forall>b. mem ?s1 x = Some b \<longrightarrow> (\<exists>b'. mem s' x = Some b' \<and> prev_m b' = prev_m b)) \<and>
          (\<exists>b'. mem s' (brk ?s1) = Some b' \<and> size_m b' = MMAP_THRESHOLD - ALIGN sizeof_block_meta \<and>
             status_m b' = STATUS_ALLOC \<and> prev_m b' = (if as = [] then 0 else last as))"
    by (rule allocateSbrk_chain) (use assms n in simp_all)
  then obtain s' where s': "allocateSbrk MMAP_THRESHOLD ?s1 = returns (brk s, s')"
      "chain (mem s') (head s') (as @ [brk s])"
      "s' = ?s1\<lparr>head := head s', mem := mem s', brk := brk s + MMAP_THRESHOLD,
                   trace := trace s @ [SBRK MMAP_THRESHOLD]\<rparr>"
      "\<exists>b'. mem s' (brk s) = Some b' \<and> size_m b' = MMAP_THRESHOLD - ALIGN sizeof_block_meta \<and>
             status_m b' = STATUS_ALLOC"
    by auto
  have "os_malloc sz s = returns (brk s + sizeof_block_meta, s')"
    using m s'(1) by (simp add: then_do_returns)
  moreover have "trace s' = trace s @ [SBRK (128 * 1024)]" by (subst s'(3)) (simp add: n)
  moreover have "preallocHeap s' = 1" by (subst s'(3)) simp
  ultimately show ?thesis using s'(2,4) n(1) by auto
qed

text \<open>Witness for C2: \<open>os_malloc(100)\<close> on \<open>proc0\<close>.\<close>

theorem C2_first_arena_malloc_witness:
  "preallocHeap proc0 = 0 \<and> callocType proc0 = 0 \<and> (100 :: size_t) \<noteq> 0
   \<and> ALIGN 100 + ALIGN sizeof_block_meta < MMAP_THRESHOLD
   \<and> chain (mem proc0) (head proc0) [] \<and> brk proc0 \<notin> set [] \<and> brk proc0 \<noteq> 0
   \<and> uint (brk proc0) + 128 * 1024 \<le> uint (brk_max proc0)
   \<and> (\<exists>s'. os_malloc 100 proc0 = returns (brk proc0 + sizeof_block_meta, s')
           \<and> trace s' = trace proc0 @ [SBRK (128 * 1024)]
           \<and> (\<exists>b. mem s' (brk proc0) = Some b \<and> size_m b = 128 * 1024 - ALIGN sizeof_block_meta
                  \<and> status_m b = STATUS_ALLOC)
           \<and> chain (mem s') (head s') ([] @ [brk proc0])
           \<and> preallocHeap s' = 1)"
proof -
  have h: "preallocHeap proc0 = 0" "callocType proc0 = 0" "(100 :: size_t) \<noteq> 0"
    "ALIGN 100 + ALIGN sizeof_block_meta < MMAP_THRESHOLD"
    "chain (mem proc0) (head proc0) []" "brk proc0 \<notin> set []" "brk proc0 \<noteq> 0"
    "uint (brk proc0) + 128 * 1024 \<le> uint (brk_max proc0)"
    by (simp_all add: proc0_def fresh_def ALIGN_def ALIGNMENT_def sizeof_block_meta_def
          MMAP_THRESHOLD_def chain_Nil)
  from C2_first_arena_malloc [OF h] h show ?thesis by blast
qed

subsection \<open>C3: the registry as a doubly-linked list\<close>

text \<open>Claim C3 says that between public calls every node \<open>x\<close> with a successor has
  \<open>x.next.prev = x\<close>. After \<open>os_malloc(100); os_malloc(100); os_free(first);
  os_malloc(100)\<close> on \<open>proc0\<close> the registry is \<open>0x10000 \<rightarrow> 0x10088 \<rightarrow> 0x30000\<close>:
  searchAndSplit has put the remainder \<open>0x10088\<close> before \<open>0x30000\<close>, whose \<open>prev\<close> is
  still \<open>0x10000\<close>.\<close>

theorem C3_stale_prev_after_split:
  "pointers (run [Malloc 100, Malloc 100, Free 0, Malloc 100] [] proc0)
     = returns [0x10020, 0x30020, 0x10020]
   \<and> registry_is [0x10000, 0x10088, 0x30000]
        (run [Malloc 100, Malloc 100, Free 0, Malloc 100] [] proc0) = returns True
   \<and> prev_links_ok [0x10000, 0x10088, 0x30000]
        (run [Malloc 100, Malloc 100, Free 0, Malloc 100] [] proc0) = returns False
   \<and> header_at 0x10000 (run [Malloc 100, Malloc 100, Free 0, Malloc 100] [] proc0)
     = returns (Some \<lparr>size_m = 104, status_m = STATUS_ALLOC, prev_m = 0, next_m = 0x10088\<rparr>)
   \<and> header_at 0x10088 (run [Malloc 100, Malloc 100, Free 0, Malloc 100] [] proc0)
     = returns (Some \<lparr>size_m = 130904, status_m = STATUS_FREE, prev_m = 0x10000, next_m = 0x30000\<rparr>)
   \<and> header_at 0x30000 (run [Malloc 100, Malloc 100, Free 0, Malloc 100] [] proc0)
     = returns (Some \<lparr>size_m = 104, status_m = STATUS_ALLOC, prev_m = 0x10000, next_m = 0\<rparr>)"
  by (simp add: eval_defs)

subsection \<open>C4: best fit and split\<close>

text \<open>Claim C4 says that searchAndSplit chooses the smallest FREE block that fits, the
  first one among equals, returns NULL when none fits, and on a split splices the
  remainder into the registry after the chosen block. On the registry that
  \<open>interleaved\<close> leaves on \<open>proc0\<close>, a request that nothing fits returns NULL, and a
  request of 232 bytes in all passes over the first fit \<open>0x30000\<close> (504 bytes) and takes
  \<open>0x302a0\<close>, the first of the two blocks of 304 bytes. The split shrinks it to 200
  bytes and writes the FREE header \<open>0x30388\<close> of 72 bytes, which takes over the
  successor \<open>0x303f0\<close> and becomes the \<open>next\<close> of the chosen block. The successor's
  \<open>prev\<close> is not written: it still names \<open>0x302a0\<close>, so the new header is in the
  list only in the forward direction. The \<open>os_malloc(200)\<close> that issues this request
  leaves the same header.\<close>

theorem C4_split_leaves_successor_prev:
  "registry_is [0x10000, 0x30000, 0x30218, 0x302a0, 0x303f0, 0x30478, 0x305c8]
        (run interleaved [] proc0) = returns True
   \<and> prev_links_ok [0x10000, 0x30000, 0x30218, 0x302a0, 0x303f0, 0x30478, 0x305c8]
        (run interleaved [] proc0) = returns True
   \<and> header_at 0x30000 (run interleaved [] proc0)
     = returns (Some \<lparr>size_m = 504, status_m = STATUS_FREE, prev_m = 0x10000, next_m = 0x30218\<rparr>)
   \<and> header_at 0x302a0 (run interleaved [] proc0)
     = returns (Some \<lparr>size_m = 304, status_m = STATUS_FREE, prev_m = 0x30218, next_m = 0x303f0\<rparr>)
   \<and> header_at 0x30478 (run interleaved [] proc0)
     = returns (Some \<lparr>size_m = 304, status_m = STATUS_FREE, prev_m = 0x303f0, next_m = 0x305c8\<rparr>)
   \<and> pointers (searchAndSplit_after 1000 (run interleaved [] proc0))
     = returns [0x10020, 0x30020, 0x30238, 0x302c0, 0x30410, 0x30498, 0x305e8, 0]
   \<and> pointers (searchAndSplit_after 232 (run interleaved [] proc0))
     = returns [0x10020, 0x30020, 0x30238, 0x302c0, 0x30410, 0x30498, 0x305e8, 0x302a0]
   \<and> header_at 0x302a0 (searchAndSplit_after 232 (run interleaved [] proc0))
     = returns (Some \<lparr>size_m = 200, status_m = STATUS_ALLOC, prev_m = 0x30218, next_m = 0x30388\<rparr>)
   \<and> header_at 0x30388 (searchAndSplit_after 232 (run interleaved [] proc0))
     = returns (Some \<lparr>size_m = 72, status_m = STATUS_FREE, prev_m = 0x302a0, next_m = 0x303f0\<rparr>)
   \<and> header_at 0x303f0 (searchAndSplit_after 232 (run interleaved [] proc0))
     = returns (Some \<lparr>size_m = 104, status_m = STATUS_ALLOC, prev_m = 0x302a0, next_m = 0x30478\<rparr>)
   \<and> registry_is [0x10000, 0x30000, 0x30218, 0x302a0, 0x30388, 0x303f0, 0x30478, 0x305c8]
        (searchAndSplit_after 232 (run interleaved [] proc0)) = returns True
   \<and> prev_links_ok [0x10000, 0x30000, 0x30218, 0x302a0, 0x30388, 0x303f0, 0x30478, 0x305c8]
        (searchAndSplit_after 232 (run interleaved [] proc0)) = returns False
   \<and> header_at 0x30388 (run (interleaved @ [Malloc 200]) [] proc0)
     = returns (Some \<lparr>size_m = 72, status_m = STATUS_FREE, prev_m = 0x302a0, next_m = 0x303f0\<rparr>)
   \<and> header_at 0x303f0 (run (interleaved @ [Malloc 200]) [] proc0)
     = returns (Some \<lparr>size_m = 104, status_m = STATUS_ALLOC, prev_m = 0x302a0, next_m = 0x30478\<rparr>)"
  unfolding interleaved0_reached
  by (simp add: eval_defs interleaved_def interleaved0_def searchAndSplit_after_def)

subsection \<open>C5: adjacent FREE blocks after os_malloc\<close>

text \<open>Claim C5 says that after any \<open>os_malloc\<close> no two FREE arena blocks are adjacent,
  neither in the registry nor by address with a MAPPED node between them. Two runs on
  \<open>proc0\<close> show otherwise. In the first the last \<open>os_malloc\<close> is served by MMAP and
  does not coalesce: \<open>0x10000\<close> and its successor \<open>0x30000\<close> are both FREE. In the
  second the last \<open>os_malloc\<close> runs tryAll, but the FREE blocks \<open>0x30000\<close> (which ends
  at \<open>0x30088\<close>) and \<open>0x30088\<close> have the MAPPED node between them in the registry and
  are left apart.\<close>

theorem C5_adjacent_free_counterexample:
  "header_at 0x10000 (run [Malloc 100, Malloc 100, Free 0, Free 1, Malloc 204800] [] proc0)
     = returns (Some \<lparr>size_m = 131040, status_m = STATUS_FREE, prev_m = 0, next_m = 0x30000\<rparr>)
   \<and> header_at 0x30000 (run [Malloc 100, Malloc 100, Free 0, Free 1, Malloc 204800] [] proc0)
     = returns (Some \<lparr>size_m = 104, status_m = STATUS_FREE, prev_m = 0x10000, next_m = 0x7f0000000000\<rparr>)
   \<and> syscalls (run [Malloc 100, Malloc 100, Malloc 204800, Malloc 100, Malloc 100, Free 1, Free 3,
                      Malloc 200] [] proc0)
     = returns [SBRK 131072, SBRK 136, MMAP 204832, SBRK 136, SBRK 136, SBRK 232]
   \<and> header_at 0x30000 (run [Malloc 100, Malloc 100, Malloc 204800, Malloc 100, Malloc 100, Free 1,
                              Free 3, Malloc 200] [] proc0)
     = returns (Some \<lparr>size_m = 104, status_m = STATUS_FREE, prev_m = 0x10000, next_m = 0x7f0000000000\<rparr>)
   \<and> header_at 0x7f0000000000 (run [Malloc 100, Malloc 100, Malloc 204800, Malloc 100, Malloc 100,
                              Free 1, Free 3, Malloc 200] [] proc0)
     = returns (Some \<lparr>size_m = 204832, status_m = STATUS_MAPPED, prev_m = 0x30000, next_m = 0x30088\<rparr>)
   \<and> header_at 0x30088 (run [Malloc 100, Malloc 100, Malloc 204800, Malloc 100, Malloc 100, Free 1,
                              Free 3, Malloc 200] [] proc0)
     = returns (Some \<lparr>size_m = 104, status_m = STATUS_FREE, prev_m = 0x7f0000000000, next_m = 0x30110\<rparr>)"
  by (simp add: eval_defs)

text \<open>Claim C5 as amended: when \<open>os_malloc\<close> is called with a non-zero size of at most
  \<open>128 * 1024 - H - 8\<close> bytes (the sizes whose total stays below MMAP_THRESHOLD) on a
  preallocated heap, so that it runs tryAll, it returns, and in the registry it leaves
  no two neighbours are both FREE. The registry is assumed to end in NULL and to satisfy
  \<open>arena_ok\<close>, and the kernel to grant \<open>128 * 1024\<close> more bytes of break.\<close>

theorem C5_arena_malloc_no_adjacent_free:
  assumes pre: "preallocHeap s \<noteq> 0" and cal: "callocType s = 0"
    and sz0: "sz \<noteq> 0" and szle: "sz \<le> 131032"
    and reg: "chain (mem s) (head s) as" and ne: "as \<noteq> []"
    and geo: "arena_ok s as"
    and lim: "uint (brk s) + 128 * 1024 \<le> uint (brk_max s)"
  shows "\<exists>p s' as'. os_malloc sz s = returns (p, s') \<and> p - sizeof_block_meta \<noteq> 0
           \<and> chain (mem s') (head s') as' \<and> no_adj_free (mem s') as'"
proof -
  let ?H = "ALIGN sizeof_block_meta"
  let ?tot = "ALIGN sz + ?H"
  \<comment> \<open>the request, in numbers\<close>
  have al: "unat (ALIGN sz) \<le> unat sz + 7" using szle by (rule ALIGN_le)
  have szn: "unat sz \<le> 131032" using szle by (simp add: word_le_nat_alt)
  have "unat (ALIGN sz) + unat (32 :: 64 word) < 2 ^ LENGTH(64)" using al szn by simp
  then have "unat (ALIGN sz + 32) = unat (ALIGN sz) + unat (32 :: 64 word)"
    by (simp only: unat_add_lem [THEN iffD1])
  then have tot: "unat ?tot = unat (ALIGN sz) + 32" by (simp add: H32)
  have totle: "unat ?tot \<le> 131071" using tot al szn by simp
  have tot0: "?tot \<noteq> 0" using tot by (metis add_is_0 unat_0 zero_neq_numeral)
  have req: "?tot - ?H = ALIGN sz" by simp
  have small: "\<not> MMAP_THRESHOLD \<le> ?tot"
    using totle by (simp add: word_le_nat_alt MMAP_THRESHOLD_def)
  have "unat (8 :: 64 word) + unat ?tot < 2 ^ LENGTH(64)" using totle by simp
  then have "unat (8 + ?tot) = unat (8 :: 64 word) + unat ?tot"
    by (simp only: unat_add_lem [THEN iffD1])
  then have tot8: "unat (ALIGN 1 + ?tot) = unat ?tot + 8" by (simp add: ALIGN_def ALIGNMENT_def)
  \<comment> \<open>the kernel\<close>
  have lim64: "uint (brk_max s) < 2 ^ 64" using uint_lt2p [of "brk_max s"] by simp
  have m1: "uint (- 1 :: 64 word) = 2 ^ 64 - 1"
    by (simp add: unsigned_minus_1_eq_mask mask_eq_exp_minus_1)
  have brk1: "brk s \<noteq> - 1" using lim lim64 m1 by auto
  from geo have fec: "free_extents_clear s as []" and fpt: "free_pairs_touch s as"
    and brkn: "brk s \<notin> set as" and brk0: "brk s \<noteq> 0"
    by (simp_all add: arena_ok_def)
  \<comment> \<open>the call reaches tryAll, which starts with the sweep\<close>
  have h0: "head s \<noteq> 0" using reg ne by (cases as) (auto simp: chain_Cons)
  from merge_sweep_chain [OF reg ne fec _ fpt]
  obtain s1 as1 where m: "merge_sweep (head s) s = returns s1" "s1 = s\<lparr>mem := mem s1\<rparr>"
      "chain (mem s1) (head s) as1" "as1 \<noteq> []" "set as1 \<subseteq> set as"
      "free_extents_clear s1 as1 []" "no_adj_free (mem s1) as1"
      "\<forall>x. is_free (mem s1) x = is_free (mem s) x"
    by auto
  have s1f: "head s1 = head s" "brk s1 = brk s" "brk_max s1 = brk_max s" "trace s1 = trace s"
    by (subst m(2), simp)+
  have d1: "distinct as1" using m(3) by (rule chain_distinct)
  have z1: "0 \<notin> set as1" using m(3) by (rule chain_nonzero)
  \<comment> \<open>an address inside a FREE block that is large enough to split is no registry node\<close>
  have inside: "a + ?tot \<noteq> 0 \<and> a + ?tot \<notin> set as1"
    if a: "a \<in> set as1" "fits s1 (?tot - ?H) a" "ALIGN 1 + ?tot \<le> size_at s1 a" for a
  proof -
    have fa: "is_free (mem s1) a" using a(2) by (auto simp: fits_def is_free_def split: option.splits)
    from m(6) a(1) fa have e64: "extent_end s1 a \<le> 2 ^ 64"
      and clr: "\<forall>c\<in>set as1. \<not> (unat a < unat c \<and> unat c < extent_end s1 a)"
      by (auto simp: free_extents_clear_def)
    have big: "unat ?tot + 8 \<le> unat (size_at s1 a)" using a(3) tot8 by (simp add: word_le_nat_alt)
    have ee: "extent_end s1 a = unat a + 32 + unat (size_at s1 a)" by (simp add: extent_end_def H32)
    have "unat a + unat ?tot < 2 ^ LENGTH(64)" using e64 ee big by simp
    then have u: "unat (a + ?tot) = unat a + unat ?tot" by (simp only: unat_add_lem [THEN iffD1])
    have pos: "0 < unat ?tot" using tot by simp
    have "unat a < unat (a + ?tot)" "unat (a + ?tot) < extent_end s1 a" using u pos ee big by simp_all
    with clr have "a + ?tot \<notin> set as1" by blast
    moreover have "a + ?tot \<noteq> 0" using u pos by (metis add_is_0 unat_0 not_less_zero)
    ultimately show ?thesis by simp
  qed
  then have nb_ok: "\<forall>a\<in>set as1. fits s1 (?tot - ?H) a \<and> ALIGN 1 + ?tot \<le> size_at s1 a
           \<longrightarrow> a + ?tot \<noteq> 0" by blast
  \<comment> \<open>what os_malloc does with the outcome of tryAll\<close>
  have om: "os_malloc sz s =
      then_do (then_do (tryAll (head s) ?tot s) (\<lambda>(memBlock, s1).
                 if memBlock = 0 then allocateSbrk ?tot s1 else returns (memBlock, s1)))
        (\<lambda>(memBlock, s1). returns (memBlock + sizeof_block_meta, s1))"
    using pre cal sz0 small by (simp add: os_malloc_def Let_def)
  have ta: "tryAll (head s) ?tot s =
      then_do (searchAndSplit (head s) ?tot s1) (\<lambda>(memBlock, s2).
        if memBlock \<noteq> 0 then returns (memBlock, s2) else extendHeap (head s) ?tot 0 s2)"
    using h0 m(1) by (simp add: tryAll_def mergeFreeBlocks_def then_do_returns)
  show ?thesis
  proof (cases "\<forall>a\<in>set as1. \<not> fits s1 (?tot - ?H) a")
    case True
    have ss: "searchAndSplit (head s) ?tot s1 = returns (0, s1)"
      using m(3) tot0 True by (rule searchAndSplit_none)
    let ?t = "last as1"
    have tin: "?t \<in> set as1" using m(4) by simp
    from chain_mem [OF m(3) tin] obtain tb where tb: "mem s1 ?t = Some tb" by blast
    have t0: "?t \<noteq> 0" using tin z1 by metis
    show ?thesis
    proof (cases "status_m tb = STATUS_FREE")
      case free: True
      let ?n = "?tot - ?H - size_m tb"
      have "\<not> fits s1 (?tot - ?H) ?t" using True tin by blast
      then have lt: "size_m tb < ALIGN sz" using tb free req by (simp add: fits_def)
      then have un: "unat ?n = unat (ALIGN sz) - unat (size_m tb)"
        using req by (simp add: unat_sub)
      have ltn: "unat (size_m tb) < unat (ALIGN sz)" using lt by (simp add: word_less_nat_alt)
      have nle: "unat ?n \<le> 131039" using un al szn by simp
      have uin: "uint ?n \<le> 131039" using uint_le_unat [OF nle] by simp
      then have "uint ?n < 2 ^ 63" by simp
      then have sn: "sint ?n = uint ?n" by (rule sint_small)
      have ok: "status_m tb = STATUS_FREE \<longrightarrow> 0 \<le> sint ?n
           \<and> uint (brk s1) + sint ?n \<le> uint (brk_max s1) \<and> brk s1 \<noteq> - 1"
        using sn uin lim brk1 s1f by simp
      let ?tb' = "tb\<lparr>size_m := ?tot - ?H, status_m := STATUS_ALLOC, next_m := 0\<rparr>"
      let ?s3 = "s1\<lparr>trace := trace s1 @ [SBRK ?n], brk := brk s1 + ?n, mem := (mem s1)(?t \<mapsto> ?tb')\<rparr>"
      have eh: "extendHeap (head s) ?tot 0 s1 = returns (?t, ?s3)"
        using extendHeap_normal [OF m(3,4) tb ok] free by simp
      have res: "os_malloc sz s = returns (?t + sizeof_block_meta, ?s3)"
        using om ta ss eh t0 by (simp add: then_do_returns)
      have nx: "next_m tb = 0"
      proof -
        have "as1 = butlast as1 @ [?t]" using m(4) by simp
        then have "chain (mem s1) (head s) (butlast as1 @ ?t # [])" using m(3) by simp
        then have "chain (mem s1) ?t [?t]" by (rule chain_suffix)
        then show ?thesis using tb by (simp add: chain_Cons chain_Nil)
      qed
      have ch: "chain (mem ?s3) (head ?s3) as1"
        using m(3) tb nx s1f by (simp add: chain_upd_same_next)
      have "no_adj_free (mem ?s3) as1"
        by (rule no_adj_free_mono [OF m(7)]) (simp add: is_free_def)
      moreover have "?t + sizeof_block_meta - sizeof_block_meta \<noteq> 0" using t0 by simp
      ultimately show ?thesis using res ch by blast
    next
      case used: False
      have eh: "extendHeap (head s) ?tot 0 s1 = returns (0, s1)"
        using extendHeap_normal [OF m(3,4) tb] used by simp
      have ut: "uint ?tot \<le> 131071" using uint_le_unat [OF totle] by simp
      then have "uint ?tot < 2 ^ 63" by simp
      then have st: "sint ?tot = uint ?tot" by (rule sint_small)
      have c1: "chain (mem s1) (head s1) as1" using m(3) s1f by simp
      have b1: "brk s1 \<notin> set as1" using brkn m(5) s1f by auto
      have b2: "brk s1 \<noteq> 0" using brk0 s1f by simp
      have p1: "0 \<le> sint ?tot" using st by simp
      have p2: "uint (brk s1) + sint ?tot \<le> uint (brk_max s1)" using st ut lim s1f by simp
      from allocateSbrk_chain [OF c1 b1 b2 tot0 p1 p2]
      obtain s3 where a: "allocateSbrk ?tot s1 = returns (brk s1, s3)"
          "chain (mem s3) (head s3) (as1 @ [brk s1])"
          "\<forall>x b. x \<noteq> brk s1 \<longrightarrow> mem s1 x = Some b \<longrightarrow>
             (\<exists>b'. mem s3 x = Some b' \<and> size_m b' = size_m b \<and> status_m b' = status_m b)"
          "\<exists>b'. mem s3 (brk s1) = Some b' \<and> status_m b' = STATUS_ALLOC"
        by auto
      have res: "os_malloc sz s = returns (brk s1 + sizeof_block_meta, s3)"
        using om ta ss eh a(1) by (simp add: then_do_returns)
      have nf: "\<not> is_free (mem s3) (brk s1)" using a(4) by (auto simp: is_free_def)
      have keep: "\<forall>x\<in>set as1. is_free (mem s3) x \<longrightarrow> is_free (mem s1) x"
      proof (intro ballI impI)
        fix x assume x: "x \<in> set as1" "is_free (mem s3) x"
        then have xb: "x \<noteq> brk s1" using b1 by auto
        from chain_mem [OF m(3) x(1)] obtain b where b: "mem s1 x = Some b" by blast
        with a(3) xb obtain b' where "mem s3 x = Some b'" "status_m b' = status_m b" by blast
        with x(2) b show "is_free (mem s1) x" by (simp add: is_free_def)
      qed
      have "no_adj_free (mem s3) (as1 @ [brk s1])"
        using m(7) nf keep by (rule no_adj_free_snoc)
      moreover have "brk s1 + sizeof_block_meta - sizeof_block_meta \<noteq> 0" using b2 by simp
      ultimately show ?thesis using res a(2) by blast
    qed
  next
    case False
    from searchAndSplit_some [OF m(3) tot0 nb_ok False]
    obtain bf b where bf: "bf \<in> set as1" "fits s1 (?tot - ?H) bf" "mem s1 bf = Some b"
      and ss: "searchAndSplit (head s) ?tot s1 = returns (bf,
          if ALIGN 1 + ?tot \<le> size_m b then
            s1\<lparr>mem := (mem s1)
               (bf \<mapsto> b\<lparr>status_m := STATUS_ALLOC, size_m := ?tot - ?H, next_m := bf + ?tot\<rparr>,
                bf + ?tot \<mapsto> \<lparr>size_m = size_m b - ?tot, status_m = STATUS_FREE,
                             prev_m = bf, next_m = next_m b\<rparr>)\<rparr>
          else s1\<lparr>mem := (mem s1)(bf \<mapsto> b\<lparr>status_m := STATUS_ALLOC\<rparr>)\<rparr>)"
      by blast
    define s2 where "s2 = (if ALIGN 1 + ?tot \<le> size_m b then
            s1\<lparr>mem := (mem s1)
               (bf \<mapsto> b\<lparr>status_m := STATUS_ALLOC, size_m := ?tot - ?H, next_m := bf + ?tot\<rparr>,
                bf + ?tot \<mapsto> \<lparr>size_m = size_m b - ?tot, status_m = STATUS_FREE,
                             prev_m = bf, next_m = next_m b\<rparr>)\<rparr>
          else s1\<lparr>mem := (mem s1)(bf \<mapsto> b\<lparr>status_m := STATUS_ALLOC\<rparr>)\<rparr>)"
    have ss': "searchAndSplit (head s) ?tot s1 = returns (bf, s2)" using ss s2_def by simp
    have s2: "if ALIGN 1 + ?tot \<le> size_m b then
                 s2 = s1\<lparr>mem := (mem s1)
                        (bf \<mapsto> b\<lparr>status_m := STATUS_ALLOC, size_m := ?tot - ?H, next_m := bf + ?tot\<rparr>,
                         bf + ?tot \<mapsto> \<lparr>size_m = size_m b - ?tot, status_m = STATUS_FREE,
                                         prev_m = bf, next_m = next_m b\<rparr>)\<rparr>
               else s2 = s1\<lparr>mem := (mem s1)(bf \<mapsto> b\<lparr>status_m := STATUS_ALLOC\<rparr>)\<rparr>"
      using s2_def by simp
    have bf0: "bf \<noteq> 0" using bf(1) z1 by metis
    have res: "os_malloc sz s = returns (bf + sizeof_block_meta, s2)"
      using om ta ss' bf0 by (simp add: then_do_returns)
    have isf: "is_free (mem s1) bf" using bf(2,3) by (simp add: fits_def is_free_def)
    from bf(1) obtain xs ys where spl: "as1 = xs @ bf # ys" by (meson split_list)
    have bfx: "bf \<notin> set xs" "bf \<notin> set ys" using d1 spl by auto
    have "\<exists>as'. chain (mem s2) (head s2) as' \<and> no_adj_free (mem s2) as'"
    proof (cases "ALIGN 1 + ?tot \<le> size_m b")
      case True
      let ?nb = "bf + ?tot"
      let ?b' = "b\<lparr>status_m := STATUS_ALLOC, size_m := ?tot - ?H, next_m := ?nb\<rparr>"
      let ?n' = "\<lparr>size_m = size_m b - ?tot, status_m = STATUS_FREE, prev_m = bf, next_m = next_m b\<rparr>"
      from s2 True have s2e: "s2 = s1\<lparr>mem := (mem s1)(bf \<mapsto> ?b', ?nb \<mapsto> ?n')\<rparr>" by simp
      have "ALIGN 1 + ?tot \<le> size_at s1 bf" using True bf(3) by (simp add: size_at_def)
      with inside [OF bf(1,2)] have nb: "?nb \<noteq> 0" "?nb \<notin> set as1" by auto
      have c: "chain (mem s1) (head s) (xs @ bf # ys)" using m(3) spl by simp
      have "chain ((mem s1)(bf \<mapsto> ?b', ?nb \<mapsto> ?n')) (head s) (xs @ bf # ?nb # ys)"
        by (rule chain_split_insert [OF c bf(3)]) (use nb spl in simp_all)
      then have ch: "chain (mem s2) (head s2) (xs @ bf # ?nb # ys)"
        using s2e s1f by simp
      have nbf: "?nb \<noteq> bf" using nb(2) bf(1) by auto
      have "no_adj_free (mem s2) (xs @ bf # ?nb # ys)"
      proof (rule no_adj_free_insert [where m = "mem s1"])
        show "no_adj_free (mem s1) (xs @ bf # ys)" using m(7) spl by simp
        show "is_free (mem s1) bf" by (rule isf)
        show "\<not> is_free (mem s2) bf" using s2e nbf by (simp add: is_free_def)
        show "\<forall>x\<in>set (xs @ ys). is_free (mem s2) x \<longrightarrow> is_free (mem s1) x"
        proof (intro ballI impI)
          fix x assume x: "x \<in> set (xs @ ys)" "is_free (mem s2) x"
          then have "x \<noteq> bf" using bfx by auto
          moreover have "x \<noteq> ?nb" using x(1) nb(2) spl by auto
          ultimately have "mem s2 x = mem s1 x" using s2e by simp
          with x(2) show "is_free (mem s1) x" by (simp add: is_free_def)
        qed
      qed
      with ch show ?thesis by blast
    next
      case False
      with s2 have s2e: "s2 = s1\<lparr>mem := (mem s1)(bf \<mapsto> b\<lparr>status_m := STATUS_ALLOC\<rparr>)\<rparr>" by simp
      have ch: "chain (mem s2) (head s2) as1"
        using m(3) bf(3) s1f s2e by (simp add: chain_upd_same_next)
      have "no_adj_free (mem s2) as1"
        by (rule no_adj_free_mono [OF m(7)]) (simp add: s2e is_free_def)
      with ch show ?thesis by blast
    qed
    moreover have "bf + sizeof_block_meta - sizeof_block_meta \<noteq> 0" using bf0 by simp
    ultimately show ?thesis using res by blast
  qed
qed

text \<open>Witness for C5 as amended: \<open>os_malloc(100)\<close> on \<open>two_free0\<close>, where the sweep
  folds the two FREE blocks into one and the search splits it.\<close>

theorem C5_arena_malloc_no_adjacent_free_witness:
  "preallocHeap two_free0 \<noteq> 0 \<and> callocType two_free0 = 0 \<and> (100 :: size_t) \<noteq> 0
   \<and> (100 :: size_t) \<le> 131032
   \<and> chain (mem two_free0) (head two_free0) [0x10000, 0x30000]
   \<and> arena_ok two_free0 [0x10000, 0x30000]
   \<and> uint (brk two_free0) + 128 * 1024 \<le> uint (brk_max two_free0)
   \<and> (\<exists>p s' as'. os_malloc 100 two_free0 = returns (p, s') \<and> p - sizeof_block_meta \<noteq> 0
           \<and> chain (mem s') (head s') as' \<and> no_adj_free (mem s') as')"
proof -
  have h: "preallocHeap two_free0 \<noteq> 0" "callocType two_free0 = 0" "(100 :: size_t) \<noteq> 0"
    "(100 :: size_t) \<le> 131032"
    "chain (mem two_free0) (head two_free0) [0x10000, 0x30000]" "[0x10000, 0x30000 :: addr] \<noteq> []"
    "arena_ok two_free0 [0x10000, 0x30000]"
    "uint (brk two_free0) + 128 * 1024 \<le> uint (brk_max two_free0)"
    by (simp_all add: two_free0_def proc0_def fresh_def chain_Cons chain_Nil arena_ok_def
          free_extents_clear_def extent_end_def size_at_def is_free_def H32)
  from C5_arena_malloc_no_adjacent_free [OF h] h show ?thesis by blast
qed

subsection \<open>C6: os_realloc with the size the block was allocated for\<close>

text \<open>Claim C6 says that \<open>os_realloc(p, n)\<close> returns \<open>p\<close> for a live pointer obtained for
  size \<open>n\<close>, arena or mapped. For a mapped block of \<open>200 * 1024\<close> bytes on \<open>proc0\<close>
  the call maps a second region, unmaps the first and returns the new pointer: the
  \<open>size\<close> of a mapped block includes the header, so it never equals \<open>align(n)\<close>.\<close>

theorem C6_realloc_mapped_same_size_moves:
  "pointers (run [Malloc 204800, Realloc 0 204800] [] proc0)
     = returns [0x7f0000000020, 0x7f0000033020]
   \<and> syscalls (run [Malloc 204800, Realloc 0 204800] [] proc0)
     = returns [MMAP 204832, MMAP 204832, MUNMAP 0x7f0000000000 204832]"
  by (simp add: eval_defs)

subsection \<open>C7: os_free of a mapped block\<close>

text \<open>Claim C7 says that \<open>os_free\<close> of a MAPPED block unlinks it from the registry and
  unmaps \<open>block.size\<close> bytes from the header. In the run below the mapped block
  \<open>0x7f0000000000\<close> is appended after \<open>0x30000\<close>, which the next \<open>os_malloc\<close> folds into
  \<open>0x10000\<close> and then splits, without updating the mapped block's \<open>prev\<close>. \<open>os_free\<close>
  issues MUNMAP with the length that was mapped, but deleteBlock rewrites the \<open>next\<close> of
  the stale \<open>prev\<close> \<open>0x30000\<close>: the real predecessor \<open>0x10088\<close> still points to the
  unmapped header, and the next \<open>os_malloc\<close> reads it.\<close>

theorem C7_mapped_block_left_linked:
  "syscalls (run [Malloc 100, Malloc 100, Free 0, Free 1, Malloc 204800, Malloc 100, Free 2] [] proc0)
     = returns [SBRK 131072, SBRK 136, MMAP 204832, MUNMAP 0x7f0000000000 204832]
   \<and> registry_head (run [Malloc 100, Malloc 100, Free 0, Free 1, Malloc 204800, Malloc 100, Free 2] [] proc0)
     = returns 0x10000
   \<and> header_at 0x10000 (run [Malloc 100, Malloc 100, Free 0, Free 1, Malloc 204800, Malloc 100, Free 2] [] proc0)
     = returns (Some \<lparr>size_m = 104, status_m = STATUS_ALLOC, prev_m = 0, next_m = 0x10088\<rparr>)
   \<and> header_at 0x10088 (run [Malloc 100, Malloc 100, Free 0, Free 1, Malloc 204800, Malloc 100, Free 2] [] proc0)
     = returns (Some \<lparr>size_m = 131040, status_m = STATUS_FREE, prev_m = 0x10000, next_m = 0x7f0000000000\<rparr>)
   \<and> header_at 0x7f0000000000 (run [Malloc 100, Malloc 100, Free 0, Free 1, Malloc 204800, Malloc 100, Free 2] [] proc0)
     = returns None
   \<and> run [Malloc 100, Malloc 100, Free 0, Free 1, Malloc 204800, Malloc 100, Free 2, Malloc 100] [] proc0
     = raise Fault"
  by (simp add: eval_defs)

subsection \<open>C8: the mode flags between public calls\<close>

text \<open>Claim C8 says that \<open>calloc_mode\<close> and \<open>realloc_mode\<close> are zero whenever a public
  call has returned. Growing the last block of the heap in place, \<open>os_realloc\<close> sets
  \<open>reallocType\<close> and returns from the success path without resetting it.\<close>

theorem C8_realloc_mode_left_set:
  "pointers (run [Malloc 100, Realloc 0 131041] [] proc0) = returns [0x10020, 0x10020]
   \<and> syscalls (run [Malloc 100, Realloc 0 131041] [] proc0) = returns [SBRK 131072, SBRK 8]
   \<and> mode_flags (run [Malloc 100, Realloc 0 131041] [] proc0) = returns (0, 1)"
  by (simp add: eval_defs)

subsection \<open>C9: the degenerate cases of os_realloc\<close>

text \<open>Claim C9: \<open>os_realloc\<close> with size 0 frees the pointer and returns NULL: a NULL
  pointer leaves the process as it was, an ALLOC block becomes FREE, a FREE block stays as
  it is, and a MAPPED block whose \<open>prev\<close> is its registry predecessor leaves the
  registry and is unmapped. Otherwise, with a NULL pointer the call is \<open>os_malloc\<close> of
  the size, and no header is read; otherwise, on a block whose status is FREE, it returns
  NULL and leaves the process as it was.\<close>

theorem C9_realloc_degenerate_cases:
  "(sz = 0 \<and> ptr = 0 \<longrightarrow> os_realloc ptr sz s = returns (0, s))
   \<and> (sz = 0 \<and> ptr \<noteq> 0 \<and> load s (ptr - sizeof_block_meta) = returns b \<and> status_m b = STATUS_ALLOC
        \<longrightarrow> os_realloc ptr sz s
            = returns (0, s\<lparr>mem := (mem s)(ptr - sizeof_block_meta \<mapsto> b\<lparr>status_m := STATUS_FREE\<rparr>)\<rparr>))
   \<and> (sz = 0 \<and> ptr \<noteq> 0 \<and> load s (ptr - sizeof_block_meta) = returns b \<and> status_m b = STATUS_FREE
        \<longrightarrow> os_realloc ptr sz s = returns (0, s))
   \<and> (sz = 0 \<and> ptr \<noteq> 0 \<and> chain (mem s) (head s) (xs @ (ptr - sizeof_block_meta) # ys)
        \<and> mem s (ptr - sizeof_block_meta) = Some b \<and> status_m b = STATUS_MAPPED \<and> size_m b \<noteq> 0
        \<and> prev_m b = (if xs = [] then 0 else last xs)
        \<and> (\<forall>a\<in>set (xs @ ys). \<not> (a - (ptr - sizeof_block_meta) < size_m b))
        \<longrightarrow> (\<exists>s'. os_realloc ptr sz s = returns (0, s')
               \<and> trace s' = trace s @ [MUNMAP (ptr - sizeof_block_meta) (size_m b)]
               \<and> chain (mem s') (head s') (xs @ ys) \<and> mem s' (ptr - sizeof_block_meta) = None))
   \<and> (sz \<noteq> 0 \<and> ptr = 0 \<longrightarrow> os_realloc ptr sz s = os_malloc sz s)
   \<and> (sz \<noteq> 0 \<and> ptr \<noteq> 0 \<and> load s (ptr - sizeof_block_meta) = returns b \<and> status_m b = STATUS_FREE
        \<longrightarrow> os_realloc ptr sz s = returns (0, s))"
proof (intro conjI impI)
  assume "sz = 0 \<and> ptr = 0"
  then show "os_realloc ptr sz s = returns (0, s)"
    by (simp add: os_realloc_def os_free_def Let_def then_do_returns)
next
  assume h: "sz = 0 \<and> ptr \<noteq> 0 \<and> load s (ptr - sizeof_block_meta) = returns b \<and> status_m b = STATUS_ALLOC"
  then have "os_free ptr s = returns (s\<lparr>mem := (mem s)(ptr - sizeof_block_meta \<mapsto> b\<lparr>status_m := STATUS_FREE\<rparr>)\<rparr>)"
    by (intro os_free_alloc) simp_all
  with h show "os_realloc ptr sz s
            = returns (0, s\<lparr>mem := (mem s)(ptr - sizeof_block_meta \<mapsto> b\<lparr>status_m := STATUS_FREE\<rparr>)\<rparr>)"
    by (simp add: os_realloc_def Let_def then_do_returns)
next
  assume h: "sz = 0 \<and> ptr \<noteq> 0 \<and> load s (ptr - sizeof_block_meta) = returns b \<and> status_m b = STATUS_FREE"
  then have "os_free ptr s = returns s" by (intro os_free_free [of s ptr b]) simp_all
  with h show "os_realloc ptr sz s = returns (0, s)"
    by (simp add: os_realloc_def Let_def then_do_returns)
next
  assume h: "sz = 0 \<and> ptr \<noteq> 0 \<and> chain (mem s) (head s) (xs @ (ptr - sizeof_block_meta) # ys)
        \<and> mem s (ptr - sizeof_block_meta) = Some b \<and> status_m b = STATUS_MAPPED \<and> size_m b \<noteq> 0
        \<and> prev_m b = (if xs = [] then 0 else last xs)
        \<and> (\<forall>a\<in>set (xs @ ys). \<not> (a - (ptr - sizeof_block_meta) < size_m b))"
  have p: "ptr - sizeof_block_meta + sizeof_block_meta = ptr" by simp
  have "\<exists>s'. os_free (ptr - sizeof_block_meta + sizeof_block_meta) s = returns s'
           \<and> trace s' = trace s @ [MUNMAP (ptr - sizeof_block_meta) (size_m b)]
           \<and> chain (mem s') (head s') (xs @ ys) \<and> mem s' (ptr - sizeof_block_meta) = None"
    using h by (intro os_free_mapped_intact) (simp_all only: p, simp_all)
  then obtain s' where s': "os_free ptr s = returns s'"
      "trace s' = trace s @ [MUNMAP (ptr - sizeof_block_meta) (size_m b)]"
      "chain (mem s') (head s') (xs @ ys)" "mem s' (ptr - sizeof_block_meta) = None"
    unfolding p by blast
  have "os_realloc ptr sz s = returns (0, s')"
    using h s'(1) by (simp add: os_realloc_def Let_def then_do_returns)
  with s'(2-4) show "\<exists>s'. os_realloc ptr sz s = returns (0, s')
               \<and> trace s' = trace s @ [MUNMAP (ptr - sizeof_block_meta) (size_m b)]
               \<and> chain (mem s') (head s') (xs @ ys) \<and> mem s' (ptr - sizeof_block_meta) = None"
    by blast
next
  assume "sz \<noteq> 0 \<and> ptr = 0"
  then show "os_realloc ptr sz s = os_malloc sz s" by (simp add: os_realloc_def Let_def)
next
  assume "sz \<noteq> 0 \<and> ptr \<noteq> 0 \<and> load s (ptr - sizeof_block_meta) = returns b \<and> status_m b = STATUS_FREE"
  then show "os_realloc ptr sz s = returns (0, s)"
    by (simp add: os_realloc_def Let_def then_do_returns)
qed


text \<open>Witness for C9: size 0 with NULL, with the live slab of \<open>live0\<close> (which becomes
  \<open>freed0\<close>), with the freed slab of \<open>freed0\<close> and with the mapped block of
  \<open>mapped0\<close>; a NULL pointer with size 100 on \<open>proc0\<close>; the freed slab of
  \<open>freed0\<close> with size 50.\<close>

theorem C9_realloc_degenerate_cases_witness:
  "os_realloc 0 0 proc0 = returns (0, proc0)
   \<and> os_realloc 0x10020 0 live0 = returns (0, freed0)
   \<and> os_realloc 0x10020 0 freed0 = returns (0, freed0)
   \<and> (\<exists>s'. os_realloc 0x7f0000000020 0 mapped0 = returns (0, s')
          \<and> trace s' = [MMAP 204832, MUNMAP 0x7f0000000000 204832]
          \<and> head s' = 0 \<and> mem s' 0x7f0000000000 = None)
   \<and> os_realloc 0 100 proc0 = os_malloc 100 proc0
   \<and> os_malloc 100 proc0 = returns (0x10020, live0)
   \<and> os_realloc 0x10020 50 freed0 = returns (0, freed0)"
proof -
  let ?slab = "\<lparr>size_m = 131040, status_m = STATUS_ALLOC, prev_m = 0, next_m = 0\<rparr>"
  let ?freed = "\<lparr>size_m = 131040, status_m = STATUS_FREE, prev_m = 0, next_m = 0\<rparr>"
  let ?mapped = "\<lparr>size_m = 204832, status_m = STATUS_MAPPED, prev_m = 0, next_m = 0\<rparr>"
  have l1: "load live0 (0x10020 - sizeof_block_meta) = returns ?slab"
    by (simp add: load_def live0_def sizeof_block_meta_def)
  have l2: "load freed0 (0x10020 - sizeof_block_meta) = returns ?freed"
    by (simp add: load_def freed0_def sizeof_block_meta_def)
  have f: "live0\<lparr>mem := (mem live0)(0x10020 - sizeof_block_meta \<mapsto> ?slab\<lparr>status_m := STATUS_FREE\<rparr>)\<rparr> = freed0"
    by (simp add: live0_def freed0_def sizeof_block_meta_def)
  have m: "chain (mem mapped0) (head mapped0) ([] @ (0x7f0000000020 - sizeof_block_meta) # [])"
      "mem mapped0 (0x7f0000000020 - sizeof_block_meta) = Some ?mapped"
    by (simp_all add: mapped0_def chain_Cons chain_Nil sizeof_block_meta_def)
  have 1: "os_realloc 0 0 proc0 = returns (0, proc0)"
    using C9_realloc_degenerate_cases [of 0 0 proc0] by simp
  have 2: "os_realloc 0x10020 0 live0 = returns (0, freed0)"
    using C9_realloc_degenerate_cases [of 0 "0x10020" live0 ?slab] l1 f by simp
  have 3: "os_realloc 0x10020 0 freed0 = returns (0, freed0)"
    using C9_realloc_degenerate_cases [of 0 "0x10020" freed0 ?freed] l2 by simp
  have 4: "\<exists>s'. os_realloc 0x7f0000000020 0 mapped0 = returns (0, s')
          \<and> trace s' = [MMAP 204832, MUNMAP 0x7f0000000000 204832]
          \<and> head s' = 0 \<and> mem s' 0x7f0000000000 = None"
    using C9_realloc_degenerate_cases [of 0 "0x7f0000000020" mapped0 ?mapped "[]" "[]"] m
    by (simp add: chain_Nil) (simp add: mapped0_def sizeof_block_meta_def)
  have 5: "os_realloc 0 100 proc0 = os_malloc 100 proc0"
    using C9_realloc_degenerate_cases [of 100 0 proc0] by simp
  have 6: "os_malloc 100 proc0 = returns (0x10020, live0)"
    by (simp add: eval_defs live0_def)
  have 7: "os_realloc 0x10020 50 freed0 = returns (0, freed0)"
    using C9_realloc_degenerate_cases [of 50 "0x10020" freed0 ?freed] l2 by simp
  from 1 2 3 4 5 6 7 show ?thesis by blast
qed

subsection \<open>C10: the byte count of os_calloc\<close>




end
